theory Spec2Isabelle
  imports Main "HOL-Library.List_Lexorder" "HOL-Library.Char_ord"
begin

section \<open>The precedence graph\<close>

text \<open>
  \<^verbatim>\<open>adjacency_type = std::map<Key, std::vector<Key>>\<close>: the entries of the map in
  iteration order, that is in strictly ascending key order. \<^verbatim>\<open>std::string\<close> keys are
  \<open>string\<close> with the lexicographic order on bytes.
\<close>

type_synonym 'k adjacency = "('k \<times> 'k list) list"

text \<open>Insertion of a key that the map does not hold yet, at its place in key order.\<close>

fun map_insert :: "'k::linorder \<Rightarrow> 'v \<Rightarrow> ('k \<times> 'v) list \<Rightarrow> ('k \<times> 'v) list" where
  "map_insert k v [] = [(k, v)]"
| "map_insert k v ((k', v') # rest) =
     (if k < k' then (k, v) # (k', v') # rest else (k', v') # map_insert k v rest)"

text \<open>
  \<^verbatim>\<open>adj[v]\<close>: \<^verbatim>\<open>std::map::operator[]\<close> returns the mapped vector and, when the key is
  absent, first inserts it with an empty vector. The map after the access is returned
  with the vector.
\<close>

definition adj_index :: "'k::linorder adjacency \<Rightarrow> 'k \<Rightarrow> 'k adjacency \<times> 'k list" where
  "adj_index g v =
     (case map_of g v of
        Some ws \<Rightarrow> (g, ws)
      | None \<Rightarrow> (map_insert v [] g, []))"

text \<open>Assignment through the reference that \<^verbatim>\<open>operator[]\<close> returned.\<close>

definition map_assign :: "'k \<Rightarrow> 'v \<Rightarrow> ('k \<times> 'v) list \<Rightarrow> ('k \<times> 'v) list" where
  "map_assign k v g = map (\<lambda>(k', v'). if k' = k then (k', v) else (k', v')) g"

text \<open>\<^verbatim>\<open>precede(v, w)\<close>: \<^verbatim>\<open>adj[v].push_back(w)\<close>.\<close>

definition precede :: "'k::linorder \<Rightarrow> 'k \<Rightarrow> 'k adjacency \<Rightarrow> 'k adjacency" where
  "precede v w g = (let (g', ws) = adj_index g v in map_assign v (ws @ [w]) g')"

text \<open>A graph built from the empty one by a sequence of calls to \<^verbatim>\<open>precede\<close>.\<close>

definition build :: "('k::linorder \<times> 'k) list \<Rightarrow> 'k adjacency" where
  "build es = fold (\<lambda>(v, w) g. precede v w g) es []"

text \<open>Read access that does not touch the map: the successors of a key, none when absent.\<close>

definition successors :: "'k adjacency \<Rightarrow> 'k \<Rightarrow> 'k list" where
  "successors g v = (case map_of g v of Some ws \<Rightarrow> ws | None \<Rightarrow> [])"

definition keys_of :: "'k adjacency \<Rightarrow> 'k set" where
  "keys_of g = fst ` set g"

definition vertices :: "'k adjacency \<Rightarrow> 'k set" where
  "vertices g = keys_of g \<union> (\<Union>(k, ws) \<in> set g. set ws)"

definition edges :: "'k adjacency \<Rightarrow> ('k \<times> 'k) set" where
  "edges g = {(v, w). w \<in> set (successors g v)}"

text \<open>The invariant of \<^verbatim>\<open>std::map\<close>: strictly ascending keys.\<close>

definition adj_wf :: "'k::linorder adjacency \<Rightarrow> bool" where
  "adj_wf g = (sorted (map fst g) \<and> distinct (map fst g))"

section \<open>The linearizer\<close>

text \<open>
  The state that \<^verbatim>\<open>sort_util\<close> works on: the member \<^verbatim>\<open>adj\<close> (the function is
  non-const and creates entries), and the two reference parameters \<^verbatim>\<open>visited\<close> and
  \<^verbatim>\<open>s\<close>. \<^verbatim>\<open>visited\<close> is a \<^verbatim>\<open>std::map<Key, bool>\<close> that is only ever read through
  \<^verbatim>\<open>operator[]\<close>, where an absent key reads as false: it is the set of the keys mapped
  to true. The stack \<^verbatim>\<open>s\<close> is a list whose head is the top.
\<close>

record 'k sort_state =
  adj :: "'k adjacency"
  visited :: "'k set"
  s :: "'k list"

text \<open>
  \<^verbatim>\<open>sort_util\<close> and the range-for loop in its body call each other. They are one
  recursive function on a call: \<open>Util v\<close> is \<^verbatim>\<open>sort_util(v, visited, s)\<close>, and
  \<open>Loop ws\<close> is the rest of the loop \<^verbatim>\<open>for (const auto& i : adj[v])\<close> with \<open>ws\<close> still
  to go. The vector \<^verbatim>\<open>adj[v]\<close> is read once, by reference; no vector changes during a
  traversal. A traversal that does not return has the value \<open>None\<close>.
\<close>

datatype 'k call = Util 'k | Loop "'k list"

partial_function (option)
  traverse :: "'k::linorder call \<Rightarrow> 'k sort_state \<Rightarrow> 'k sort_state option" where
  "traverse c st =
     (case c of
        Util v \<Rightarrow>
          (let st1 = st\<lparr>visited := insert v (visited st)\<rparr>;
               (g, ws) = adj_index (adj st1) v;
               st2 = st1\<lparr>adj := g\<rparr>
           in Option.bind (traverse (Loop ws) st2) (\<lambda>st3. Some (st3\<lparr>s := v # s st3\<rparr>)))
      | Loop [] \<Rightarrow> Some st
      | Loop (i # is) \<Rightarrow>
          Option.bind (if i \<notin> visited st then traverse (Util i) st else Some st)
            (traverse (Loop is)))"

declare traverse.simps [code]

definition sort_util :: "'k::linorder \<Rightarrow> 'k sort_state \<Rightarrow> 'k sort_state option" where
  "sort_util v st = traverse (Util v) st"

definition sort_util_loop :: "'k::linorder list \<Rightarrow> 'k sort_state \<Rightarrow> 'k sort_state option" where
  "sort_util_loop ws st = traverse (Loop ws) st"

text \<open>
  The loop \<^verbatim>\<open>for (const auto& [key, value] : adj)\<close> of \<^verbatim>\<open>topological_sort\<close> walks the
  map with an iterator while \<^verbatim>\<open>sort_util\<close> inserts into it. An iterator of
  \<^verbatim>\<open>std::map\<close> stays valid; it is the key it points to, \<open>None\<close> at the end.
  \<^verbatim>\<open>++it\<close> moves to the least key of the current map above it.
\<close>

definition map_begin :: "('k \<times> 'v) list \<Rightarrow> 'k option" where
  "map_begin g = (case g of [] \<Rightarrow> None | (k, _) # _ \<Rightarrow> Some k)"

definition map_next :: "('k::linorder \<times> 'v) list \<Rightarrow> 'k \<Rightarrow> 'k option" where
  "map_next g k = map_option fst (find (\<lambda>(k', _). k < k') g)"

partial_function (option)
  topological_sort_loop :: "'k::linorder option \<Rightarrow> 'k sort_state \<Rightarrow> 'k sort_state option" where
  "topological_sort_loop it st =
     (case it of
        None \<Rightarrow> Some st
      | Some key \<Rightarrow>
          Option.bind (if key \<notin> visited st then sort_util key st else Some st)
            (\<lambda>st'. topological_sort_loop (map_next (adj st') key) st'))"

declare topological_sort_loop.simps [code]

text \<open>
  \<^verbatim>\<open>topological_sort\<close> returns the stack; the map \<^verbatim>\<open>adj\<close> it leaves behind is returned
  with it.
\<close>

definition topological_sort :: "'k::linorder adjacency \<Rightarrow> ('k adjacency \<times> 'k list) option" where
  "topological_sort g =
     map_option (\<lambda>st. (adj st, s st))
       (topological_sort_loop (map_begin g) \<lparr>adj = g, visited = {}, s = []\<rparr>)"

section \<open>The container adapters\<close>

text \<open>
  An adapter is a container and a \<^verbatim>\<open>topological_sorter\<close> (its two base classes). The one
  exception of the code is the \<^verbatim>\<open>std::out_of_range\<close> that \<^verbatim>\<open>container::at\<close> throws; a
  write past the end of a \<^verbatim>\<open>std::array\<close>, which C++ leaves undefined, is an error of the
  model too.
\<close>

datatype error = OutOfRange | OutOfBounds

record ('c, 'k) adapter =
  container :: 'c
  sorter :: "'k adjacency"

text \<open>
  \<^verbatim>\<open>stack_helper\<close>: while the stack is not empty, call \<open>f\<close> on the top and pop. An
  exception of \<open>f\<close> ends the loop.
\<close>

fun stack_helper :: "('k \<Rightarrow> 'a \<Rightarrow> error + 'a) \<Rightarrow> 'k list \<Rightarrow> 'a \<Rightarrow> error + 'a" where
  "stack_helper f [] acc = Inr acc"
| "stack_helper f (key # rest) acc =
     (case f key acc of Inl e \<Rightarrow> Inl e | Inr acc' \<Rightarrow> stack_helper f rest acc')"

subsection \<open>\<^verbatim>\<open>topological_sort_map\<close> and \<^verbatim>\<open>topological_sort_unordered_map\<close>\<close>

text \<open>
  The container is the list of its entries in its own iteration order, with unique keys
  (ascending for \<^verbatim>\<open>std::map\<close>, whatever the hash table gives for
  \<^verbatim>\<open>std::unordered_map\<close>).
\<close>

definition map_at :: "('k \<times> 'v) list \<Rightarrow> 'k \<Rightarrow> error + 'v" where
  "map_at c key = (case map_of c key of None \<Rightarrow> Inl OutOfRange | Some v \<Rightarrow> Inr v)"

text \<open>The lambda given to \<^verbatim>\<open>stack_helper\<close>; the accumulator is \<^verbatim>\<open>result\<close> and \<^verbatim>\<open>copied\<close>.\<close>

definition map_copy_key ::
  "('k \<times> 'v) list \<Rightarrow> 'k \<Rightarrow> ('k \<times> 'v) list \<times> 'k set \<Rightarrow> error + ('k \<times> 'v) list \<times> 'k set" where
  "map_copy_key c key = (\<lambda>(result, copied).
     case map_at c key of
       Inl e \<Rightarrow> Inl e
     | Inr v \<Rightarrow> Inr (result @ [(key, v)], insert key copied))"

text \<open>The second loop, over the container.\<close>

fun map_sweep :: "('k \<times> 'v) list \<Rightarrow> ('k \<times> 'v) list \<times> 'k set \<Rightarrow> ('k \<times> 'v) list \<times> 'k set" where
  "map_sweep [] acc = acc"
| "map_sweep ((key, v) # rest) (result, copied) =
     (if key \<notin> copied then map_sweep rest (result @ [(key, v)], insert key copied)
      else map_sweep rest (result, copied))"

definition sort_map ::
  "(('k::linorder \<times> 'v) list, 'k) adapter \<Rightarrow>
   (error + (('k \<times> 'v) list, 'k) adapter \<times> ('k \<times> 'v) list) option" where
  "sort_map a =
     (case topological_sort (sorter a) of
        None \<Rightarrow> None
      | Some (g, stk) \<Rightarrow>
          Some (case stack_helper (map_copy_key (container a)) stk ([], {}) of
                  Inl e \<Rightarrow> Inl e
                | Inr acc \<Rightarrow> Inr (a\<lparr>sorter := g\<rparr>, fst (map_sweep (container a) acc))))"

definition sort_unordered_map ::
  "(('k::linorder \<times> 'v) list, 'k) adapter \<Rightarrow>
   (error + (('k \<times> 'v) list, 'k) adapter \<times> ('k \<times> 'v) list) option" where
  "sort_unordered_map a =
     (case topological_sort (sorter a) of
        None \<Rightarrow> None
      | Some (g, stk) \<Rightarrow>
          Some (case stack_helper (map_copy_key (container a)) stk ([], {}) of
                  Inl e \<Rightarrow> Inl e
                | Inr acc \<Rightarrow> Inr (a\<lparr>sorter := g\<rparr>, fst (map_sweep (container a) acc))))"

subsection \<open>\<^verbatim>\<open>topological_sort_vector\<close>\<close>

text \<open>
  \<^verbatim>\<open>std::count\<close> is \<open>count_list\<close>; the loop \<^verbatim>\<open>for (auto i{0}; i<n; ++i)\<close> appends \<open>n\<close>
  copies (the counter is an \<^verbatim>\<open>int\<close>: the model is for containers of fewer than
  \<open>2^31\<close> elements).
\<close>

definition vector_copy_key ::
  "'k list \<Rightarrow> 'k \<Rightarrow> 'k list \<times> 'k set \<Rightarrow> error + 'k list \<times> 'k set" where
  "vector_copy_key c key = (\<lambda>(result, copied).
     Inr (result @ replicate (count_list c key) key, insert key copied))"

fun vector_sweep :: "'k list \<Rightarrow> 'k list \<Rightarrow> 'k list \<times> 'k set \<Rightarrow> 'k list \<times> 'k set" where
  "vector_sweep c [] acc = acc"
| "vector_sweep c (key # rest) (result, copied) =
     (if key \<notin> copied
      then vector_sweep c rest (result @ replicate (count_list c key) key, insert key copied)
      else vector_sweep c rest (result, copied))"

definition sort_vector ::
  "('k::linorder list, 'k) adapter \<Rightarrow> (error + ('k list, 'k) adapter \<times> 'k list) option" where
  "sort_vector a =
     (case topological_sort (sorter a) of
        None \<Rightarrow> None
      | Some (g, stk) \<Rightarrow>
          Some (case stack_helper (vector_copy_key (container a)) stk ([], {}) of
                  Inl e \<Rightarrow> Inl e
                | Inr acc \<Rightarrow>
                    Inr (a\<lparr>sorter := g\<rparr>, fst (vector_sweep (container a) (container a) acc))))"

subsection \<open>\<^verbatim>\<open>topological_sort_array\<close>\<close>

text \<open>
  A \<^verbatim>\<open>std::array<T, N>\<close> is a list of length \<open>N\<close>. The result array starts out
  default-initialised, every slot holding \<open>dflt\<close>, and is written through
  \<^verbatim>\<open>result[index++] = key\<close>.
\<close>

fun array_fill :: "nat \<Rightarrow> 'k \<Rightarrow> 'k list \<times> nat \<Rightarrow> error + 'k list \<times> nat" where
  "array_fill 0 key (result, index) = Inr (result, index)"
| "array_fill (Suc n) key (result, index) =
     (if index < length result then array_fill n key (result[index := key], Suc index)
      else Inl OutOfBounds)"

definition array_copy_key ::
  "'k list \<Rightarrow> 'k \<Rightarrow> ('k list \<times> nat) \<times> 'k set \<Rightarrow> error + ('k list \<times> nat) \<times> 'k set" where
  "array_copy_key c key = (\<lambda>(out, copied).
     case array_fill (count_list c key) key out of
       Inl e \<Rightarrow> Inl e
     | Inr out' \<Rightarrow> Inr (out', insert key copied))"

fun array_sweep ::
  "'k list \<Rightarrow> 'k list \<Rightarrow> ('k list \<times> nat) \<times> 'k set \<Rightarrow> error + ('k list \<times> nat) \<times> 'k set" where
  "array_sweep c [] acc = Inr acc"
| "array_sweep c (key # rest) (out, copied) =
     (if key \<notin> copied
      then (case array_fill (count_list c key) key out of
              Inl e \<Rightarrow> Inl e
            | Inr out' \<Rightarrow> array_sweep c rest (out', insert key copied))
      else array_sweep c rest (out, copied))"

definition sort_array ::
  "'k \<Rightarrow> ('k::linorder list, 'k) adapter \<Rightarrow> (error + ('k list, 'k) adapter \<times> 'k list) option" where
  "sort_array dflt a =
     (case topological_sort (sorter a) of
        None \<Rightarrow> None
      | Some (g, stk) \<Rightarrow>
          Some (case stack_helper (array_copy_key (container a)) stk
                       ((replicate (length (container a)) dflt, 0), {}) of
                  Inl e \<Rightarrow> Inl e
                | Inr acc \<Rightarrow>
                    (case array_sweep (container a) (container a) acc of
                       Inl e \<Rightarrow> Inl e
                     | Inr ((result, index), copied) \<Rightarrow> Inr (a\<lparr>sorter := g\<rparr>, result))))"

section \<open>Notions of the proofs\<close>

text \<open>The map that \<^verbatim>\<open>adj[v]\<close> leaves behind.\<close>

definition vivify :: "'k::linorder adjacency \<Rightarrow> 'k \<Rightarrow> 'k adjacency" where
  "vivify g v = fst (adj_index g v)"

text \<open>The state in which the loop of \<^verbatim>\<open>sort_util(v, ...)\<close> starts: \<open>v\<close> is visited and has an entry.\<close>

definition mark :: "'k::linorder \<Rightarrow> 'k sort_state \<Rightarrow> 'k sort_state" where
  "mark v st = st\<lparr>visited := insert v (visited st), adj := vivify (adj st) v\<rparr>"

text \<open>\<^verbatim>\<open>s.push(v)\<close>.\<close>

definition push :: "'k \<Rightarrow> 'k sort_state \<Rightarrow> 'k sort_state" where
  "push v st = st\<lparr>s := v # s st\<rparr>"

text \<open>The keys that a call starts from.\<close>

definition roots :: "'k call \<Rightarrow> 'k set" where
  "roots c = (case c of Util v \<Rightarrow> {v} | Loop ws \<Rightarrow> set ws)"

text \<open>\<^verbatim>\<open>sort_util\<close> is only ever called on a key that is not visited yet.\<close>

definition fresh :: "'k call \<Rightarrow> 'k sort_state \<Rightarrow> bool" where
  "fresh c st = (case c of Util v \<Rightarrow> v \<notin> visited st | Loop ws \<Rightarrow> True)"

text \<open>The vertices not visited yet. Their number bounds the recursion.\<close>

definition unvisited :: "'k sort_state \<Rightarrow> 'k set" where
  "unvisited st = vertices (adj st) - visited st"

text \<open>The body of the loop of \<^verbatim>\<open>topological_sort\<close>.\<close>

definition visit :: "'k::linorder \<Rightarrow> 'k sort_state \<Rightarrow> 'k sort_state option" where
  "visit key st = (if key \<notin> visited st then sort_util key st else Some st)"

text \<open>The measure of the loop of \<^verbatim>\<open>topological_sort\<close>: the vertices above the iterator.\<close>

definition ahead :: "'k::linorder option \<Rightarrow> 'k sort_state \<Rightarrow> nat" where
  "ahead it st = (case it of None \<Rightarrow> 0 | Some k \<Rightarrow> Suc (card {k' \<in> vertices (adj st). k < k'}))"

text \<open>Every key on the stack has all its successors below it.\<close>

definition ordered :: "'k adjacency \<Rightarrow> 'k list \<Rightarrow> bool" where
  "ordered g stk = (\<forall>pre u post. stk = pre @ u # post \<longrightarrow> set (successors g u) \<subseteq> set post)"

text \<open>The keys that are visited and not on the stack yet: the calls of \<^verbatim>\<open>sort_util\<close> in progress.\<close>

definition grey :: "'k sort_state \<Rightarrow> 'k set" where
  "grey st = visited st - set (s st)"

text \<open>The invariant of the loop of \<^verbatim>\<open>topological_sort\<close>, between two keys, on the graph \<open>g\<close> the call started from.\<close>

definition top_inv :: "'k::linorder adjacency \<Rightarrow> 'k sort_state \<Rightarrow> bool" where
  "top_inv g st \<longleftrightarrow>
     adj_wf (adj st) \<and> successors (adj st) = successors g \<and> vertices (adj st) = vertices g \<and>
     keys_of (adj st) = keys_of g \<union> visited st \<and> set (s st) = visited st \<and> distinct (s st) \<and>
     visited st \<subseteq> vertices g \<and> (\<forall>u \<in> set (s st). set (successors g u) \<subseteq> visited st)"

text \<open>The iterator stands on a key of the map, and every key before it is visited.\<close>

definition it_inv :: "'k::linorder option \<Rightarrow> 'k sort_state \<Rightarrow> bool" where
  "it_inv it st =
     (case it of
        None \<Rightarrow> keys_of (adj st) \<subseteq> visited st
      | Some key \<Rightarrow> key \<in> keys_of (adj st) \<and> (\<forall>k \<in> keys_of (adj st). k < key \<longrightarrow> k \<in> visited st))"

text \<open>Each key of a list in as many copies as the container \<open>c\<close> holds.\<close>

definition expand :: "'k list \<Rightarrow> 'k list \<Rightarrow> 'k list" where
  "expand c ks = concat (map (\<lambda>k. replicate (count_list c k) k) ks)"

text \<open>The elements of a list that are not in \<open>seen\<close>, each once, where it occurs first.\<close>

fun unseen :: "'k set \<Rightarrow> 'k list \<Rightarrow> 'k list" where
  "unseen seen [] = []"
| "unseen seen (x # xs) = (if x \<in> seen then unseen seen xs else x # unseen (insert x seen) xs)"

text \<open>The elements of a list, each once, where it occurs first.\<close>

definition firsts :: "'k list \<Rightarrow> 'k list" where
  "firsts xs = rev (remdups (rev xs))"

section \<open>Facts about the map operations\<close>

lemma adj_index_eq: "adj_index g v = (vivify g v, successors g v)"
  by (simp add: vivify_def adj_index_def successors_def split: option.splits)

lemma set_map_insert: "set (map_insert k v g) = insert (k, v) (set g)"
  by (induction g) (auto split: if_splits)

lemma map_of_map_insert:
  "k \<notin> fst ` set g \<Longrightarrow> map_of (map_insert k v g) = (map_of g)(k \<mapsto> v)"
  by (induction g) (auto simp: fun_eq_iff)

lemma sorted_map_insert:
  "sorted (map fst g) \<Longrightarrow> sorted (map fst (map_insert k v g))"
proof (induction g)
  case Nil
  then show ?case by simp
next
  case (Cons e g)
  obtain k' v' where e: "e = (k', v')" by (cases e)
  show ?case
  proof (cases "k < k'")
    case True
    then have "\<forall>x \<in> set (map fst (e # g)). k \<le> x"
      using Cons.prems e by (auto intro: less_imp_le order_trans)
    then show ?thesis
      using True Cons.prems e by simp
  next
    case False
    then have "k' \<le> k" by simp
    then show ?thesis
      using False Cons e by (auto simp: set_map_insert)
  qed
qed

lemma distinct_map_insert:
  "distinct (map fst g) \<Longrightarrow> k \<notin> fst ` set g \<Longrightarrow> distinct (map fst (map_insert k v g))"
  by (induction g) (auto simp: set_map_insert)

lemma adj_wf_map_insert:
  "adj_wf g \<Longrightarrow> k \<notin> fst ` set g \<Longrightarrow> adj_wf (map_insert k v g)"
  by (simp add: adj_wf_def sorted_map_insert distinct_map_insert)

lemma map_of_None_iff: "map_of g v = None \<longleftrightarrow> v \<notin> keys_of g"
  by (simp add: keys_of_def map_of_eq_None_iff)

lemma map_of_absent: "v \<notin> keys_of g \<Longrightarrow> map_of g v = None"
  by (simp add: map_of_None_iff)

lemma vivify_key: "v \<in> keys_of g \<Longrightarrow> vivify g v = g"
  by (auto simp: vivify_def adj_index_def map_of_None_iff split: option.splits)

lemma vivify_new: "v \<notin> keys_of g \<Longrightarrow> vivify g v = map_insert v [] g"
  by (simp add: vivify_def adj_index_def map_of_absent)

lemma keys_of_vivify: "keys_of (vivify g v) = insert v (keys_of g)"
  by (cases "v \<in> keys_of g") (auto simp: vivify_key vivify_new keys_of_def set_map_insert)

lemma successors_vivify: "successors (vivify g v) = successors g"
proof (cases "v \<in> keys_of g")
  case True
  then show ?thesis by (simp add: vivify_key)
next
  case False
  then have "map_of (vivify g v) = (map_of g)(v \<mapsto> [])"
    by (simp add: vivify_new map_of_map_insert keys_of_def)
  moreover have "map_of g v = None"
    using False by (simp add: map_of_None_iff)
  ultimately show ?thesis
    by (auto simp: successors_def fun_eq_iff)
qed

lemma vertices_vivify: "vertices (vivify g v) = insert v (vertices g)"
  by (cases "v \<in> keys_of g")
    (auto simp: vivify_key vivify_new vertices_def keys_of_def set_map_insert)

lemma adj_wf_vivify: "adj_wf g \<Longrightarrow> adj_wf (vivify g v)"
  by (cases "v \<in> keys_of g") (auto simp: vivify_key vivify_new keys_of_def adj_wf_map_insert)

lemma successors_vertices: "set (successors g v) \<subseteq> vertices g"
proof
  fix w assume "w \<in> set (successors g v)"
  then obtain ws where "map_of g v = Some ws" "w \<in> set ws"
    by (cases "map_of g v") (auto simp: successors_def)
  then have "(v, ws) \<in> set g" by (simp add: map_of_SomeD)
  with \<open>w \<in> set ws\<close> show "w \<in> vertices g"
    by (force simp: vertices_def)
qed

lemma finite_vertices: "finite (vertices g)"
  by (auto simp: vertices_def keys_of_def)

lemma keys_subset_vertices: "keys_of g \<subseteq> vertices g"
  by (simp add: vertices_def)

section \<open>The equations of the traversal\<close>

lemma sort_util_loop_Nil: "sort_util_loop [] st = Some st"
  by (simp add: sort_util_loop_def traverse.simps)

lemma sort_util_loop_Cons:
  "sort_util_loop (i # is) st =
     Option.bind (if i \<notin> visited st then sort_util i st else Some st) (sort_util_loop is)"
  unfolding sort_util_loop_def sort_util_def
  by (subst traverse.simps) (simp add: sort_util_loop_def[abs_def])

lemma sort_util_eq:
  "sort_util v st =
     Option.bind
       (sort_util_loop (successors (adj st) v)
          (st\<lparr>visited := insert v (visited st), adj := vivify (adj st) v\<rparr>))
       (\<lambda>st3. Some (st3\<lparr>s := v # s st3\<rparr>))"
  unfolding sort_util_loop_def sort_util_def
  by (subst traverse.simps) (simp add: adj_index_eq)

lemma traverse_induct [consumes 1, case_names Util Nil Visited Unvisited]:
  assumes "traverse c st = Some st'"
    and step_util: "\<And>v st st3.
       sort_util_loop (successors (adj st) v) (mark v st) = Some st3 \<Longrightarrow>
       P (Loop (successors (adj st) v)) (mark v st) st3 \<Longrightarrow>
       P (Util v) st (push v st3)"
    and step_nil: "\<And>st. P (Loop []) st st"
    and step_visited: "\<And>i is st st'.
       i \<in> visited st \<Longrightarrow> sort_util_loop is st = Some st' \<Longrightarrow> P (Loop is) st st' \<Longrightarrow>
       P (Loop (i # is)) st st'"
    and step_unvisited: "\<And>i is st st1 st'.
       i \<notin> visited st \<Longrightarrow> sort_util i st = Some st1 \<Longrightarrow> P (Util i) st st1 \<Longrightarrow>
       sort_util_loop is st1 = Some st' \<Longrightarrow> P (Loop is) st1 st' \<Longrightarrow>
       P (Loop (i # is)) st st'"
  shows "P c st st'"
proof -
  have "traverse c st = Some st' \<and> P c st st'"
  proof (rule traverse.raw_induct[where P = "\<lambda>c st st'. traverse c st = Some st' \<and> P c st st'",
        OF _ assms(1)], goal_cases)
    case (1 f c st st')
    show ?case
    proof (cases c)
      case (Util v)
      with 1(2) obtain st3 where f3: "f (Loop (successors (adj st) v)) (mark v st) = Some st3"
        and st': "st' = push v st3"
        by (auto simp: adj_index_eq mark_def push_def split: Option.bind_splits)
      from 1(1)[OF f3] have t3: "sort_util_loop (successors (adj st) v) (mark v st) = Some st3"
        and p3: "P (Loop (successors (adj st) v)) (mark v st) st3"
        by (simp_all add: sort_util_loop_def)
      have "traverse (Util v) st = Some st'"
        using t3 unfolding st' sort_util_def[symmetric]
        by (simp add: sort_util_eq mark_def push_def)
      with step_util[OF t3 p3] show ?thesis
        unfolding \<open>c = Util v\<close> st' by simp
    next
      case (Loop ws)
      show ?thesis
      proof (cases ws)
        case Nil
        with 1(2) Loop have "st' = st" by simp
        then show ?thesis
          using step_nil Loop Nil sort_util_loop_Nil[of st]
          by (simp add: sort_util_loop_def)
      next
        case (Cons i "is")
        show ?thesis
        proof (cases "i \<in> visited st")
          case True
          with 1(2) Loop Cons have "f (Loop is) st = Some st'" by simp
          from 1(1)[OF this] have t: "sort_util_loop is st = Some st'" and p: "P (Loop is) st st'"
            by (simp_all add: sort_util_loop_def)
          have "sort_util_loop (i # is) st = Some st'"
            using True t by (simp add: sort_util_loop_Cons)
          with step_visited[OF True t p] show ?thesis
            unfolding Loop Cons by (simp add: sort_util_loop_def)
        next
          case False
          with 1(2) Loop Cons obtain st1 where f1: "f (Util i) st = Some st1"
            and f2: "f (Loop is) st1 = Some st'"
            by (auto split: Option.bind_splits)
          from 1(1)[OF f1] have t1: "sort_util i st = Some st1" and p1: "P (Util i) st st1"
            by (simp_all add: sort_util_def)
          from 1(1)[OF f2] have t2: "sort_util_loop is st1 = Some st'" and p2: "P (Loop is) st1 st'"
            by (simp_all add: sort_util_loop_def)
          have "sort_util_loop (i # is) st = Some st'"
            using False t1 t2 by (simp add: sort_util_loop_Cons)
          with step_unvisited[OF False t1 p1 t2 p2] show ?thesis
            unfolding Loop Cons by (simp add: sort_util_loop_def)
        qed
      qed
    qed
  qed
  then show ?thesis by simp
qed

section \<open>What a traversal changes\<close>

lemma roots_simps [simp]: "roots (Util v) = {v}" "roots (Loop ws) = set ws"
  by (simp_all add: roots_def)

lemma mark_simps [simp]:
  "visited (mark v st) = insert v (visited st)"
  "adj (mark v st) = vivify (adj st) v"
  "s (mark v st) = s st"
  by (simp_all add: mark_def)

lemma push_simps [simp]:
  "visited (push v st) = visited st"
  "adj (push v st) = adj st"
  "s (push v st) = v # s st"
  by (simp_all add: push_def)

lemma traverse_visited:
  "traverse c st = Some st' \<Longrightarrow> visited st \<subseteq> visited st' \<and> roots c \<subseteq> visited st'"
  by (induction rule: traverse_induct) auto

lemma traverse_vertices:
  "traverse c st = Some st' \<Longrightarrow>
     vertices (adj st) \<subseteq> vertices (adj st') \<and> vertices (adj st') \<subseteq> vertices (adj st) \<union> roots c"
proof (induction rule: traverse_induct)
  case (Util v st st3)
  then show ?case
    using successors_vertices[of "adj st" v] by (auto simp: vertices_vivify)
qed auto

lemma traverse_successors:
  "traverse c st = Some st' \<Longrightarrow> successors (adj st') = successors (adj st)"
  by (induction rule: traverse_induct) (auto simp: successors_vivify)

lemma traverse_adj_wf:
  "traverse c st = Some st' \<Longrightarrow> adj_wf (adj st) \<Longrightarrow> adj_wf (adj st')"
  by (induction rule: traverse_induct) (auto simp: adj_wf_vivify)

lemma fresh_simps [simp]: "fresh (Util v) st = (v \<notin> visited st)" "fresh (Loop ws) st"
  by (simp_all add: fresh_def)

lemma traverse_stack:
  "traverse c st = Some st' \<Longrightarrow> fresh c st \<Longrightarrow>
     \<exists>new. s st' = new @ s st \<and> distinct new \<and> set new = visited st' - visited st"
proof (induction rule: traverse_induct)
  case (Util v st st3)
  then obtain new where new: "s st3 = new @ s st" "distinct new"
    "set new = visited st3 - insert v (visited st)"
    by auto
  have "v \<in> visited st3"
    using traverse_visited[of "Loop (successors (adj st) v)" "mark v st" st3] Util(1)
    by (auto simp: sort_util_loop_def)
  with new Util.prems have "s (push v st3) = (v # new) @ s st \<and> distinct (v # new) \<and>
      set (v # new) = visited (push v st3) - visited st"
    by auto
  then show ?case by blast
next
  case (Nil st)
  then show ?case by simp
next
  case (Visited i "is" st st')
  then show ?case by simp
next
  case (Unvisited i "is" st st1 st')
  then obtain n1 n2 where n1: "s st1 = n1 @ s st" "distinct n1" "set n1 = visited st1 - visited st"
    and n2: "s st' = n2 @ s st1" "distinct n2" "set n2 = visited st' - visited st1"
    by auto
  have "visited st \<subseteq> visited st1" "visited st1 \<subseteq> visited st'"
    using traverse_visited[of "Util i" st st1] traverse_visited[of "Loop is" st1 st'] Unvisited
    by (auto simp: sort_util_def sort_util_loop_def)
  with n1 n2 have "s st' = (n2 @ n1) @ s st \<and> distinct (n2 @ n1) \<and>
      set (n2 @ n1) = visited st' - visited st"
    by auto
  then show ?case by blast
qed

lemma traverse_keys:
  "traverse c st = Some st' \<Longrightarrow> fresh c st \<Longrightarrow>
     keys_of (adj st') = keys_of (adj st) \<union> (visited st' - visited st)"
proof (induction rule: traverse_induct)
  case (Util v st st3)
  have "v \<in> visited st3"
    using traverse_visited[of "Loop (successors (adj st) v)" "mark v st" st3] Util(1)
    by (auto simp: sort_util_loop_def)
  with Util show ?case
    by (auto simp: keys_of_vivify)
next
  case (Nil st)
  then show ?case by simp
next
  case (Visited i "is" st st')
  then show ?case by simp
next
  case (Unvisited i "is" st st1 st')
  have "visited st \<subseteq> visited st1" "visited st1 \<subseteq> visited st'"
    using traverse_visited[of "Util i" st st1] traverse_visited[of "Loop is" st1 st'] Unvisited
    by (auto simp: sort_util_def sort_util_loop_def)
  with Unvisited show ?case by auto
qed

lemma traverse_closed_adj:
  "traverse c st = Some st' \<Longrightarrow> roots c \<subseteq> keys_of (adj st) \<Longrightarrow>
     vertices (adj st) \<subseteq> keys_of (adj st) \<Longrightarrow> adj st' = adj st"
proof (induction rule: traverse_induct)
  case (Util v st st3)
  then show ?case
    using successors_vertices[of "adj st" v] by (auto simp: vivify_key)
qed auto

lemma traverse_black:
  "traverse c st = Some st' \<Longrightarrow>
     \<forall>u \<in> set (s st). set (successors (adj st) u) \<subseteq> visited st \<Longrightarrow>
     \<forall>u \<in> set (s st'). set (successors (adj st') u) \<subseteq> visited st'"
proof (induction rule: traverse_induct)
  case (Util v st st3)
  have "set (successors (adj st) v) \<subseteq> visited st3"
    using traverse_visited[of "Loop (successors (adj st) v)" "mark v st" st3] Util(1)
    by (auto simp: sort_util_loop_def)
  moreover have "successors (adj st3) = successors (adj st)"
    using traverse_successors[of "Loop (successors (adj st) v)" "mark v st" st3] Util(1)
    by (auto simp: sort_util_loop_def successors_vivify)
  ultimately show ?case
    using Util by (auto simp: successors_vivify)
qed auto

section \<open>The traversal returns\<close>

lemma finite_unvisited: "finite (unvisited st)"
  by (simp add: unvisited_def finite_vertices)

lemma unvisited_mark:
  "i \<in> vertices (adj st) \<Longrightarrow> unvisited (mark i st) = unvisited st - {i}"
  by (auto simp: unvisited_def vertices_vivify)

lemma traverse_unvisited:
  assumes "traverse c st = Some st'" and "roots c \<subseteq> vertices (adj st)"
  shows "unvisited st' \<subseteq> unvisited st" and "vertices (adj st') = vertices (adj st)"
  using traverse_visited[OF assms(1)] traverse_vertices[OF assms(1)] assms(2)
  by (auto simp: unvisited_def)

lemma sort_util_loop_terminates_bounded:
  "card (unvisited st) \<le> n \<Longrightarrow> set ws \<subseteq> vertices (adj st) \<Longrightarrow>
     \<exists>st'. sort_util_loop ws st = Some st'"
proof (induction n arbitrary: ws st rule: less_induct)
  case (less n)
  show ?case
    using less.prems
  proof (induction ws arbitrary: st)
    case Nil
    then show ?case by (simp add: sort_util_loop_Nil)
  next
    case (Cons i "is")
    show ?case
    proof (cases "i \<in> visited st")
      case True
      then show ?thesis
        using Cons by (simp add: sort_util_loop_Cons)
    next
      case False
      with Cons.prems have i: "i \<in> unvisited st"
        by (simp add: unvisited_def)
      have "unvisited (mark i st) = unvisited st - {i}"
        using Cons.prems(2) by (simp add: unvisited_mark)
      then have "card (unvisited (mark i st)) < card (unvisited st)"
        using card_Diff1_less[OF finite_unvisited i] by simp
      with Cons.prems(1) have lt: "card (unvisited (mark i st)) < n" by simp
      have "set (successors (adj st) i) \<subseteq> vertices (adj (mark i st))"
        using successors_vertices[of "adj st" i] by (auto simp: vertices_vivify)
      from less.IH[OF lt order_refl this]
      obtain st3 where st3: "sort_util_loop (successors (adj st) i) (mark i st) = Some st3"
        by blast
      then have util: "sort_util i st = Some (push i st3)"
        by (simp add: sort_util_eq mark_def push_def)
      have "unvisited (push i st3) \<subseteq> unvisited st"
        and "vertices (adj (push i st3)) = vertices (adj st)"
        using traverse_unvisited[of "Util i" st "push i st3"] util Cons.prems(2)
        by (simp_all add: sort_util_def)
      then have "card (unvisited (push i st3)) \<le> n" "set is \<subseteq> vertices (adj (push i st3))"
        using Cons.prems card_mono[OF finite_unvisited, of "unvisited (push i st3)" st]
        by auto
      from Cons.IH[OF this] obtain st' where "sort_util_loop is (push i st3) = Some st'"
        by blast
      then show ?thesis
        using False util by (simp add: sort_util_loop_Cons)
    qed
  qed
qed

lemma sort_util_terminates: "\<exists>st'. sort_util v st = Some st'"
proof -
  have "set (successors (adj st) v) \<subseteq> vertices (adj (mark v st))"
    using successors_vertices[of "adj st" v] by (auto simp: vertices_vivify)
  from sort_util_loop_terminates_bounded[OF order_refl this]
  obtain st3 where "sort_util_loop (successors (adj st) v) (mark v st) = Some st3"
    by blast
  then show ?thesis
    by (simp add: sort_util_eq mark_def)
qed

text \<open>The loop of \<^verbatim>\<open>topological_sort\<close> returns as well.\<close>

lemma topological_sort_loop_None: "topological_sort_loop None st = Some st"
  by (simp add: topological_sort_loop.simps)

lemma topological_sort_loop_Some:
  "topological_sort_loop (Some key) st =
     Option.bind (visit key st) (\<lambda>st'. topological_sort_loop (map_next (adj st') key) st')"
  by (subst topological_sort_loop.simps) (simp add: visit_def)

lemma visit_terminates: "\<exists>st'. visit key st = Some st'"
  using sort_util_terminates[of key st] by (simp add: visit_def)

lemma find_SomeD: "find P xs = Some x \<Longrightarrow> P x \<and> x \<in> set xs"
  by (induction xs) (auto split: if_splits)

lemma map_next_SomeD:
  "map_next g k = Some k' \<Longrightarrow> k' \<in> keys_of g \<and> k < k'"
  by (force simp: map_next_def keys_of_def dest: find_SomeD)

lemma visit_vertices:
  assumes "visit key st = Some st'"
  shows "vertices (adj st) \<subseteq> vertices (adj st')" "vertices (adj st') \<subseteq> insert key (vertices (adj st))"
  using assms traverse_vertices[of "Util key" st st']
  by (auto simp: visit_def sort_util_def split: if_splits)

lemma topological_sort_loop_terminates:
  "\<exists>st'. topological_sort_loop it st = Some st'"
proof (induction "ahead it st" arbitrary: it st rule: less_induct)
  case less
  show ?case
  proof (cases it)
    case None
    then show ?thesis by (simp add: topological_sort_loop_None)
  next
    case (Some key)
    obtain st1 where st1: "visit key st = Some st1"
      using visit_terminates by blast
    have "ahead (map_next (adj st1) key) st1 < ahead it st"
    proof (cases "map_next (adj st1) key")
      case None
      then show ?thesis by (simp add: ahead_def Some)
    next
      case (Some k2)
      from map_next_SomeD[OF this] have k2: "k2 \<in> keys_of (adj st1)" "key < k2" by auto
      with keys_subset_vertices[of "adj st1"] visit_vertices[OF st1]
      have "k2 \<in> vertices (adj st)" by auto
      with k2 visit_vertices[OF st1]
      have "{k' \<in> vertices (adj st1). k2 < k'} \<subset> {k' \<in> vertices (adj st). key < k'}"
        by (auto simp: psubset_eq)
      then have "card {k' \<in> vertices (adj st1). k2 < k'} < card {k' \<in> vertices (adj st). key < k'}"
        by (intro psubset_card_mono) (simp_all add: finite_vertices)
      then show ?thesis
        by (simp add: ahead_def Some \<open>it = Some key\<close>)
    qed
    from less[OF this] obtain st' where
      "topological_sort_loop (map_next (adj st1) key) st1 = Some st'"
      by blast
    then show ?thesis
      using st1 Some by (simp add: topological_sort_loop_Some)
  qed
qed

lemma topological_sort_terminates: "\<exists>g' stk. topological_sort g = Some (g', stk)"
  using topological_sort_loop_terminates[of "map_begin g" "\<lparr>adj = g, visited = {}, s = []\<rparr>"]
  by (auto simp: topological_sort_def)

section \<open>The order of the stack on an acyclic graph\<close>

lemma ordered_Nil: "ordered g []"
  by (simp add: ordered_def)

lemma ordered_Cons:
  "ordered g (v # stk) \<longleftrightarrow> set (successors g v) \<subseteq> set stk \<and> ordered g stk"
proof
  assume o: "ordered g (v # stk)"
  have "v # stk = [] @ v # stk" by simp
  with o have "set (successors g v) \<subseteq> set stk"
    unfolding ordered_def by blast
  moreover have "ordered g stk"
    unfolding ordered_def
  proof (intro allI impI)
    fix pre u post assume "stk = pre @ u # post"
    then have "v # stk = (v # pre) @ u # post" by simp
    with o show "set (successors g u) \<subseteq> set post"
      unfolding ordered_def by blast
  qed
  ultimately show "set (successors g v) \<subseteq> set stk \<and> ordered g stk" ..
next
  assume a: "set (successors g v) \<subseteq> set stk \<and> ordered g stk"
  show "ordered g (v # stk)"
    unfolding ordered_def
  proof (intro allI impI)
    fix pre u post assume eq: "v # stk = pre @ u # post"
    show "set (successors g u) \<subseteq> set post"
    proof (cases pre)
      case Nil
      with eq a show ?thesis by simp
    next
      case (Cons p pre')
      with eq have "stk = pre' @ u # post" by simp
      with a show ?thesis unfolding ordered_def by blast
    qed
  qed
qed

lemma ordered_successors: "successors g' = successors g \<Longrightarrow> ordered g' stk = ordered g stk"
  by (simp add: ordered_def)

lemma edges_successors: "successors g' = successors g \<Longrightarrow> edges g' = edges g"
  by (simp add: edges_def)

lemma traverse_edges: "traverse c st = Some st' \<Longrightarrow> edges (adj st') = edges (adj st)"
  by (rule edges_successors) (rule traverse_successors)

lemma traverse_stack_visited:
  assumes "traverse c st = Some st'" "fresh c st" "set (s st) \<subseteq> visited st"
  shows "set (s st') \<subseteq> visited st'" "grey st' = grey st" "set (s st) \<subseteq> set (s st')"
  using traverse_stack[OF assms(1,2)] traverse_visited[OF assms(1)] assms(3)
  by (auto simp: grey_def)

lemma traverse_ordered:
  "traverse c st = Some st' \<Longrightarrow> acyclic (edges (adj st)) \<Longrightarrow> fresh c st \<Longrightarrow>
   set (s st) \<subseteq> visited st \<Longrightarrow>
   (\<forall>x \<in> grey st. \<forall>r \<in> roots c. (x, r) \<in> (edges (adj st))\<^sup>+) \<Longrightarrow>
   ordered (adj st) (s st) \<Longrightarrow>
   ordered (adj st') (s st') \<and> roots c \<subseteq> set (s st')"
proof (induction rule: traverse_induct)
  case (Util v st st3)
  let ?ws = "successors (adj st) v"
  have e: "edges (adj (mark v st)) = edges (adj st)"
    by (rule edges_successors) (simp add: successors_vivify)
  have g: "grey (mark v st) = insert v (grey st)"
    using Util.prems by (auto simp: grey_def)
  have "\<forall>x \<in> grey (mark v st). \<forall>r \<in> set ?ws. (x, r) \<in> (edges (adj st))\<^sup>+"
  proof (intro ballI)
    fix x r assume x: "x \<in> grey (mark v st)" and r: "r \<in> set ?ws"
    from r have vr: "(v, r) \<in> edges (adj st)" by (simp add: edges_def)
    show "(x, r) \<in> (edges (adj st))\<^sup>+"
    proof (cases "x = v")
      case True
      with vr show ?thesis by auto
    next
      case False
      with x g have "x \<in> grey st" by simp
      with Util.prems have "(x, v) \<in> (edges (adj st))\<^sup>+" by simp
      then show ?thesis using vr by (rule trancl_into_trancl)
    qed
  qed
  with Util.IH Util.prems e
  have ih: "ordered (adj st3) (s st3)" "set ?ws \<subseteq> set (s st3)"
    by (auto simp: ordered_successors[OF successors_vivify])
  have "successors (adj st3) = successors (adj st)"
    using traverse_successors[of "Loop ?ws" "mark v st" st3] Util(1)
    by (simp add: sort_util_loop_def successors_vivify)
  with ih show ?case
    by (simp add: ordered_Cons)
next
  case (Nil st)
  then show ?case by simp
next
  case (Visited i "is" st st')
  have "i \<in> set (s st)"
  proof (rule ccontr)
    assume "i \<notin> set (s st)"
    with Visited(1) have "i \<in> grey st" by (simp add: grey_def)
    with Visited.prems have "(i, i) \<in> (edges (adj st))\<^sup>+" by simp
    with Visited.prems(1) show False by (simp add: acyclic_def)
  qed
  moreover have "set (s st) \<subseteq> set (s st')"
    using traverse_stack_visited(3)[of "Loop is" st st'] Visited
    by (simp add: sort_util_loop_def)
  ultimately show ?case
    using Visited by auto
next
  case (Unvisited i "is" st st1 st')
  have t1: "traverse (Util i) st = Some st1" and t2: "traverse (Loop is) st1 = Some st'"
    using Unvisited by (simp_all add: sort_util_def sort_util_loop_def)
  have f1: "fresh (Util i) st" using Unvisited by simp
  from Unvisited.IH(1) Unvisited.prems f1
  have ih1: "ordered (adj st1) (s st1)" "i \<in> set (s st1)" by auto
  note sv = traverse_stack_visited[OF t1 f1 Unvisited.prems(3)]
  have "\<forall>x \<in> grey st1. \<forall>r \<in> roots (Loop is). (x, r) \<in> (edges (adj st1))\<^sup>+"
    using Unvisited.prems(4) sv(2) traverse_edges[OF t1] by simp
  with Unvisited.IH(2) Unvisited.prems(1) ih1 sv(1) traverse_edges[OF t1]
  have ih2: "ordered (adj st') (s st')" "set is \<subseteq> set (s st')" by auto
  have "set (s st1) \<subseteq> set (s st')"
    using traverse_stack_visited(3)[OF t2 _ sv(1)] by simp
  with ih1 ih2 show ?case by auto
qed

section \<open>The loop over the keys of the map\<close>

lemma topological_sort_loop_induct [consumes 1, case_names finish step]:
  assumes "topological_sort_loop it st = Some st'"
    and step_finish: "\<And>st. P None st st"
    and step_key: "\<And>key st st1 st'.
       visit key st = Some st1 \<Longrightarrow>
       topological_sort_loop (map_next (adj st1) key) st1 = Some st' \<Longrightarrow>
       P (map_next (adj st1) key) st1 st' \<Longrightarrow> P (Some key) st st'"
  shows "P it st st'"
proof -
  have "topological_sort_loop it st = Some st' \<and> P it st st'"
  proof (rule topological_sort_loop.raw_induct[
        where P = "\<lambda>it st st'. topological_sort_loop it st = Some st' \<and> P it st st'",
        OF _ assms(1)], goal_cases)
    case (1 f it st st')
    show ?case
    proof (cases it)
      case None
      with 1(2) have "st' = st" by simp
      then show ?thesis
        using None step_finish by (simp add: topological_sort_loop_None)
    next
      case (Some key)
      with 1(2) obtain st1 where v: "visit key st = Some st1"
        and f: "f (map_next (adj st1) key) st1 = Some st'"
        by (auto simp: visit_def split: Option.bind_splits)
      from 1(1)[OF f] have t: "topological_sort_loop (map_next (adj st1) key) st1 = Some st'"
        and p: "P (map_next (adj st1) key) st1 st'"
        by simp_all
      have "topological_sort_loop (Some key) st = Some st'"
        using v t by (simp add: topological_sort_loop_Some)
      with step_key[OF v t p] show ?thesis
        unfolding Some by simp
    qed
  qed
  then show ?thesis by simp
qed

lemma find_NoneD: "find P xs = None \<Longrightarrow> x \<in> set xs \<Longrightarrow> \<not> P x"
  by (induction xs) (auto split: if_splits)

lemma map_next_NoneD: "map_next g k = None \<Longrightarrow> k' \<in> keys_of g \<Longrightarrow> \<not> k < k'"
  by (auto simp: map_next_def keys_of_def dest: find_NoneD)

lemma map_next_least:
  "adj_wf g \<Longrightarrow> map_next g k = Some k2 \<Longrightarrow> k' \<in> keys_of g \<Longrightarrow> k' < k2 \<Longrightarrow> \<not> k < k'"
proof (induction g)
  case Nil
  then show ?case by (simp add: keys_of_def)
next
  case (Cons e g)
  obtain a ws where e: "e = (a, ws)" by (cases e)
  have wf: "adj_wf g" and le: "\<forall>x \<in> keys_of g. a \<le> x"
    using Cons.prems(1) e by (auto simp: adj_wf_def keys_of_def)
  show ?case
  proof (cases "k < a")
    case True
    with Cons.prems(2) e have "k2 = a" by (simp add: map_next_def)
    with Cons.prems(3,4) e le show ?thesis
      by (auto simp: keys_of_def)
  next
    case False
    with Cons.prems(2) e have n: "map_next g k = Some k2" by (simp add: map_next_def)
    show ?thesis
    proof (cases "k' = a")
      case True
      with False show ?thesis by simp
    next
      case False
      with Cons.prems(3) e have "k' \<in> keys_of g" by (auto simp: keys_of_def)
      from Cons.IH[OF wf n this Cons.prems(4)] show ?thesis .
    qed
  qed
qed

lemma map_begin_None: "map_begin g = None \<Longrightarrow> keys_of g = {}"
  by (cases g) (auto simp: map_begin_def keys_of_def)

lemma map_begin_Some:
  "adj_wf g \<Longrightarrow> map_begin g = Some k \<Longrightarrow> k \<in> keys_of g \<and> (\<forall>k' \<in> keys_of g. \<not> k' < k)"
  by (cases g) (auto simp: map_begin_def keys_of_def adj_wf_def)

lemma visit_top_inv:
  assumes inv: "top_inv g st" and key: "key \<in> keys_of (adj st)" and v: "visit key st = Some st'"
  shows "top_inv g st'" and "key \<in> visited st'" and "visited st \<subseteq> visited st'"
proof -
  have "top_inv g st' \<and> key \<in> visited st' \<and> visited st \<subseteq> visited st'"
  proof (cases "key \<in> visited st")
    case True
    with v inv show ?thesis by (simp add: visit_def)
  next
    case False
    with v have t: "traverse (Util key) st = Some st'"
      by (simp add: visit_def sort_util_def)
    have f: "fresh (Util key) st" using False by simp
    from traverse_visited[OF t] have vis: "visited st \<subseteq> visited st'" "key \<in> visited st'"
      by simp_all
    from traverse_stack[OF t f] obtain new where new: "s st' = new @ s st" "distinct new"
      "set new = visited st' - visited st"
      by blast
    have wf: "adj_wf (adj st')"
      using traverse_adj_wf[OF t] inv by (simp add: top_inv_def)
    have su: "successors (adj st') = successors g"
      using traverse_successors[OF t] inv by (simp add: top_inv_def)
    have "key \<in> vertices (adj st)"
      using key keys_subset_vertices[of "adj st"] by auto
    with traverse_vertices[OF t] have ve: "vertices (adj st') = vertices g"
      using inv by (auto simp: top_inv_def)
    have ke: "keys_of (adj st') = keys_of g \<union> visited st'"
      using traverse_keys[OF t f] inv vis by (auto simp: top_inv_def)
    have st: "set (s st') = visited st'" "distinct (s st')"
      using new inv vis by (auto simp: top_inv_def)
    have sub: "visited st' \<subseteq> vertices g"
      using ke ve keys_subset_vertices[of "adj st'"] by auto
    have "\<forall>u \<in> set (s st). set (successors (adj st) u) \<subseteq> visited st"
      using inv by (simp add: top_inv_def)
    from traverse_black[OF t this] have "\<forall>u \<in> set (s st'). set (successors g u) \<subseteq> visited st'"
      by (simp add: su)
    with wf su ve ke st sub vis show ?thesis
      by (simp add: top_inv_def)
  qed
  then show "top_inv g st'" and "key \<in> visited st'" and "visited st \<subseteq> visited st'"
    by simp_all
qed

lemma visit_it_inv:
  assumes inv: "top_inv g st" and it: "it_inv (Some key) st" and v: "visit key st = Some st1"
  shows "it_inv (map_next (adj st1) key) st1"
proof -
  from it have key: "key \<in> keys_of (adj st)"
    and before: "\<And>k. k \<in> keys_of (adj st) \<Longrightarrow> k < key \<Longrightarrow> k \<in> visited st"
    by (simp_all add: it_inv_def)
  note vt = visit_top_inv[OF inv key v]
  have keys1: "keys_of (adj st1) = keys_of (adj st) \<union> visited st1"
    using vt(1,3) inv by (auto simp: top_inv_def)
  have wf1: "adj_wf (adj st1)"
    using vt(1) by (simp add: top_inv_def)
  have le: "k \<in> visited st1" if "k \<in> keys_of (adj st1)" "\<not> key < k" for k
  proof (cases "k = key")
    case True
    with vt(2) show ?thesis by simp
  next
    case False
    with that(2) have "k < key" by simp
    with that(1) keys1 before vt(3) show ?thesis by auto
  qed
  show ?thesis
  proof (cases "map_next (adj st1) key")
    case None
    then have "\<And>k. k \<in> keys_of (adj st1) \<Longrightarrow> \<not> key < k"
      by (rule map_next_NoneD)
    with le None show ?thesis
      by (auto simp: it_inv_def)
  next
    case (Some k2)
    from map_next_SomeD[OF Some] have "k2 \<in> keys_of (adj st1)" by simp
    moreover have "k \<in> visited st1" if "k \<in> keys_of (adj st1)" "k < k2" for k
      using map_next_least[OF wf1 Some that] le[OF that(1)] by simp
    ultimately show ?thesis
      using Some by (simp add: it_inv_def)
  qed
qed

lemma topological_sort_loop_inv:
  "topological_sort_loop it st = Some st' \<Longrightarrow> top_inv g st \<Longrightarrow> it_inv it st \<Longrightarrow>
     top_inv g st' \<and> keys_of (adj st') \<subseteq> visited st'"
proof (induction rule: topological_sort_loop_induct)
  case (finish st)
  then show ?case by (simp add: it_inv_def)
next
  case (step key st st1 st')
  from step.prems have key: "key \<in> keys_of (adj st)" by (simp add: it_inv_def)
  from visit_top_inv(1)[OF step.prems(1) key step.hyps(1)]
    visit_it_inv[OF step.prems step.hyps(1)] step.IH
  show ?case by simp
qed

lemma topological_sort_loop_ordered:
  "topological_sort_loop it st = Some st' \<Longrightarrow> top_inv g st \<Longrightarrow> it_inv it st \<Longrightarrow>
     acyclic (edges g) \<Longrightarrow> ordered g (s st) \<Longrightarrow> ordered g (s st')"
proof (induction rule: topological_sort_loop_induct)
  case (finish st)
  then show ?case by simp
next
  case (step key st st1 st')
  from step.prems have key: "key \<in> keys_of (adj st)" by (simp add: it_inv_def)
  note inv1 = visit_top_inv(1)[OF step.prems(1) key step.hyps(1)]
  have su: "successors (adj st) = successors g" "set (s st) = visited st"
    using step.prems(1) by (simp_all add: top_inv_def)
  have "ordered g (s st1)"
  proof (cases "key \<in> visited st")
    case True
    with step.hyps(1) step.prems show ?thesis by (simp add: visit_def)
  next
    case False
    with step.hyps(1) have t: "traverse (Util key) st = Some st1"
      by (simp add: visit_def sort_util_def)
    have "ordered (adj st1) (s st1) \<and> roots (Util key) \<subseteq> set (s st1)"
    proof (rule traverse_ordered[OF t])
      show "acyclic (edges (adj st))"
        using step.prems(3) edges_successors[OF su(1)] by simp
      show "fresh (Util key) st" using False by simp
      show "set (s st) \<subseteq> visited st" using su(2) by simp
      show "\<forall>x \<in> grey st. \<forall>r \<in> roots (Util key). (x, r) \<in> (edges (adj st))\<^sup>+"
        using su(2) by (simp add: grey_def)
      show "ordered (adj st) (s st)"
        using step.prems(4) ordered_successors[OF su(1)] by simp
    qed
    moreover have "successors (adj st1) = successors g"
      using inv1 by (simp add: top_inv_def)
    ultimately show ?thesis
      using ordered_successors[of "adj st1" g] by simp
  qed
  with step.IH inv1 visit_it_inv[OF step.prems(1,2) step.hyps(1)] step.prems(3)
  show ?case by simp
qed

lemma vertices_successors:
  assumes "adj_wf g" "x \<in> vertices g"
  shows "x \<in> keys_of g \<or> (\<exists>k \<in> keys_of g. x \<in> set (successors g k))"
proof (cases "x \<in> keys_of g")
  case True
  then show ?thesis ..
next
  case False
  with assms(2) obtain k ws where e: "(k, ws) \<in> set g" "x \<in> set ws"
    by (auto simp: vertices_def)
  with assms(1) have "map_of g k = Some ws"
    by (simp add: adj_wf_def)
  with e have "k \<in> keys_of g" "x \<in> set (successors g k)"
    by (auto simp: keys_of_def successors_def intro: rev_image_eqI)
  then show ?thesis by blast
qed

lemma top_inv_init: "adj_wf g \<Longrightarrow> top_inv g \<lparr>adj = g, visited = {}, s = []\<rparr>"
  by (simp add: top_inv_def)

lemma it_inv_init: "adj_wf g \<Longrightarrow> it_inv (map_begin g) \<lparr>adj = g, visited = {}, s = []\<rparr>"
  using map_begin_None[of g] map_begin_Some[of g]
  by (cases "map_begin g") (auto simp: it_inv_def)

lemma topological_sort_result:
  assumes wf: "adj_wf g" and ts: "topological_sort g = Some (g', stk)"
  shows "distinct stk" and "set stk = vertices g" and "successors g' = successors g"
    and "keys_of g' = vertices g" and "adj_wf g'" and "acyclic (edges g) \<Longrightarrow> ordered g stk"
proof -
  let ?st0 = "\<lparr>adj = g, visited = {}, s = []\<rparr>"
  from ts obtain st' where loop: "topological_sort_loop (map_begin g) ?st0 = Some st'"
    and g': "g' = adj st'" and stk: "stk = s st'"
    by (auto simp: topological_sort_def)
  from topological_sort_loop_inv[OF loop top_inv_init[OF wf] it_inv_init[OF wf]]
  have inv: "top_inv g st'" and keys: "keys_of (adj st') \<subseteq> visited st'"
    by simp_all
  have "vertices g \<subseteq> visited st'"
  proof
    fix x assume "x \<in> vertices g"
    with inv have "x \<in> vertices (adj st')" by (simp add: top_inv_def)
    with vertices_successors[of "adj st'" x] inv
    consider "x \<in> keys_of (adj st')"
      | k where "k \<in> keys_of (adj st')" "x \<in> set (successors g k)"
      by (auto simp: top_inv_def)
    then show "x \<in> visited st'"
    proof cases
      case 1
      with keys show ?thesis by blast
    next
      case 2
      with keys have "k \<in> set (s st')" using inv by (auto simp: top_inv_def)
      with inv 2(2) show ?thesis by (auto simp: top_inv_def)
    qed
  qed
  with inv have vis: "visited st' = vertices g" by (auto simp: top_inv_def)
  show "distinct stk" "set stk = vertices g" "successors g' = successors g" "adj_wf g'"
    using inv vis g' stk by (simp_all add: top_inv_def)
  show "keys_of g' = vertices g"
    using inv vis g' keys_subset_vertices[of g] by (auto simp: top_inv_def)
  show "ordered g stk" if "acyclic (edges g)"
    using topological_sort_loop_ordered[OF loop top_inv_init[OF wf] it_inv_init[OF wf] that]
    by (simp add: stk ordered_Nil)
qed

section \<open>Graphs built by \<^verbatim>\<open>precede\<close>\<close>

lemma map_fst_map_assign: "map fst (map_assign k v g) = map fst g"
  by (induction g) (auto simp: map_assign_def)

lemma map_of_map_assign_at:
  "map_of (map_assign k v g) x =
     (if x = k then map_option (\<lambda>_. v) (map_of g k) else map_of g x)"
  by (induction g) (auto simp: map_assign_def)

lemma map_of_map_assign:
  assumes "k \<in> fst ` set g"
  shows "map_of (map_assign k v g) = (map_of g)(k \<mapsto> v)"
proof -
  from assms obtain v' where "map_of g k = Some v'"
    by (cases "map_of g k") (auto simp: map_of_eq_None_iff)
  then show ?thesis
    by (auto simp: fun_eq_iff map_of_map_assign_at)
qed

lemma precede_eq: "precede v w g = map_assign v (successors g v @ [w]) (vivify g v)"
  by (simp add: precede_def adj_index_eq)

lemma adj_wf_precede: "adj_wf g \<Longrightarrow> adj_wf (precede v w g)"
  using adj_wf_vivify[of g v]
  by (simp add: precede_eq adj_wf_def map_fst_map_assign)

lemma keys_of_precede: "keys_of (precede v w g) = insert v (keys_of g)"
  using keys_of_vivify[of g v]
  by (simp add: precede_eq keys_of_def map_fst_map_assign flip: set_map)

lemma successors_precede:
  "successors (precede v w g) = (successors g)(v := successors g v @ [w])"
proof -
  have "v \<in> fst ` set (vivify g v)"
    using keys_of_vivify[of g v] by (simp add: keys_of_def)
  then have "map_of (precede v w g) = (map_of (vivify g v))(v \<mapsto> successors g v @ [w])"
    by (simp add: precede_eq map_of_map_assign)
  then have "successors (precede v w g) u =
      (if u = v then successors g v @ [w] else successors (vivify g v) u)" for u
    by (simp add: successors_def)
  then show ?thesis
    by (auto simp: successors_vivify)
qed

lemma edges_precede: "edges (precede v w g) = insert (v, w) (edges g)"
  by (auto simp: edges_def successors_precede split: if_splits)

lemma build_Nil: "build [] = []"
  by (simp add: build_def)

lemma build_snoc: "build (es @ [(v, w)]) = precede v w (build es)"
  by (simp add: build_def)

lemma adj_wf_build: "adj_wf (build es)"
proof (induction es rule: rev_induct)
  case Nil
  then show ?case by (simp add: build_Nil adj_wf_def)
next
  case (snoc e es)
  then show ?case by (cases e) (simp add: build_snoc adj_wf_precede)
qed

lemma keys_of_build: "keys_of (build es) = fst ` set es"
proof (induction es rule: rev_induct)
  case Nil
  then show ?case by (simp add: build_Nil keys_of_def)
next
  case (snoc e es)
  then show ?case by (cases e) (simp add: build_snoc keys_of_precede)
qed

lemma edges_build: "edges (build es) = set es"
proof (induction es rule: rev_induct)
  case Nil
  then show ?case by (simp add: build_Nil edges_def successors_def)
next
  case (snoc e es)
  then show ?case by (cases e) (simp add: build_snoc edges_precede)
qed

lemma vertices_edges: "adj_wf g \<Longrightarrow> vertices g = keys_of g \<union> snd ` edges g"
proof (intro equalityI subsetI)
  fix x assume "adj_wf g" "x \<in> vertices g"
  from vertices_successors[OF this] show "x \<in> keys_of g \<union> snd ` edges g"
    by (force simp: edges_def)
next
  fix x assume "x \<in> keys_of g \<union> snd ` edges g"
  then consider "x \<in> keys_of g" | v where "x \<in> set (successors g v)"
    by (auto simp: edges_def)
  then show "x \<in> vertices g"
  proof cases
    case 1
    with keys_subset_vertices[of g] show ?thesis by blast
  next
    case 2
    with successors_vertices[of g v] show ?thesis by blast
  qed
qed

lemma vertices_build: "vertices (build es) = fst ` set es \<union> snd ` set es"
  by (simp add: vertices_edges adj_wf_build keys_of_build edges_build)

section \<open>The vector adapter\<close>

lemma expand_Nil: "expand c [] = []"
  by (simp add: expand_def)

lemma expand_Cons: "expand c (k # ks) = replicate (count_list c k) k @ expand c ks"
  by (simp add: expand_def)

lemma expand_append: "expand c (ks @ ks') = expand c ks @ expand c ks'"
  by (simp add: expand_def)

lemma stack_helper_vector:
  "stack_helper (vector_copy_key c) stk (r, cp) = Inr (r @ expand c stk, cp \<union> set stk)"
  by (induction stk arbitrary: r cp) (simp_all add: vector_copy_key_def expand_Nil expand_Cons)

lemma vector_sweep_eq:
  "vector_sweep c xs (r, cp) = (r @ expand c (unseen cp xs), cp \<union> set xs)"
  by (induction xs arbitrary: r cp) (auto simp: expand_Nil expand_Cons)

lemma firsts_Nil: "firsts [] = []"
  by (simp add: firsts_def)

lemma remdups_snoc: "remdups (xs @ [x]) = filter (\<lambda>y. y \<noteq> x) (remdups xs) @ [x]"
  by (induction xs) auto

lemma firsts_Cons: "firsts (x # xs) = x # filter (\<lambda>y. y \<noteq> x) (firsts xs)"
  by (simp add: firsts_def remdups_snoc rev_filter)

lemma filter_firsts: "filter P (firsts xs) = firsts (filter P xs)"
  by (simp add: firsts_def remdups_filter rev_filter)

lemma set_firsts: "set (firsts xs) = set xs"
  by (simp add: firsts_def)

lemma distinct_firsts: "distinct (firsts xs)"
  by (simp add: firsts_def)

lemma unseen_firsts: "unseen seen xs = firsts (filter (\<lambda>x. x \<notin> seen) xs)"
proof (induction xs arbitrary: seen)
  case Nil
  then show ?case by (simp add: firsts_Nil)
next
  case (Cons x xs)
  show ?case
  proof (cases "x \<in> seen")
    case True
    then show ?thesis by (simp add: Cons)
  next
    case False
    have "filter (\<lambda>y. y \<noteq> x) (filter (\<lambda>y. y \<notin> seen) xs) = filter (\<lambda>y. y \<notin> insert x seen) xs"
      by (induction xs) auto
    with False show ?thesis
      by (simp add: Cons firsts_Cons filter_firsts)
  qed
qed

lemma sort_vector_eq:
  assumes "topological_sort (sorter a) = Some (g', stk)"
  shows "sort_vector a =
     Some (Inr (a\<lparr>sorter := g'\<rparr>,
       expand (container a) stk @
       expand (container a) (firsts (filter (\<lambda>x. x \<notin> set stk) (container a)))))"
  using assms
  by (simp add: sort_vector_def stack_helper_vector vector_sweep_eq unseen_firsts)

lemma count_list_replicate: "count_list (replicate n k) x = (if x = k then n else 0)"
  by (induction n) auto

lemma count_list_expand:
  "distinct ks \<Longrightarrow> count_list (expand c ks) x = (if x \<in> set ks then count_list c x else 0)"
  by (induction ks) (auto simp: expand_Nil expand_Cons count_list_replicate)

lemma count_list_0: "x \<notin> set c \<Longrightarrow> count_list c x = 0"
  by (induction c) auto

lemma count_list_vector_result:
  assumes "distinct stk"
  shows "count_list (expand c stk @ expand c (firsts (filter (\<lambda>x. x \<notin> set stk) c))) x =
     count_list c x"
proof -
  let ?rest = "firsts (filter (\<lambda>x. x \<notin> set stk) c)"
  have "distinct (stk @ ?rest)"
    using assms by (auto simp: distinct_firsts set_firsts)
  from count_list_expand[OF this, of c x]
  have "count_list (expand c (stk @ ?rest)) x =
      (if x \<in> set stk \<or> x \<in> set c then count_list c x else 0)"
    by (auto simp: set_firsts)
  then show ?thesis
    by (simp add: expand_append count_list_0)
qed

lemma count_list_length:
  assumes "\<And>x. count_list xs x = count_list ys x"
  shows "length xs = length ys"
  using assms
proof (induction xs arbitrary: ys)
  case Nil
  have "ys = []"
  proof (cases ys)
    case (Cons y ys')
    with Nil[of y] show ?thesis by simp
  qed simp
  then show ?case by simp
next
  case (Cons x xs)
  from Cons.prems[of x] have "x \<in> set ys"
    by (metis count_list_0 count_list.simps(2) nat.simps(3) Suc_eq_plus1)
  then obtain ys1 ys2 where ys: "ys = ys1 @ x # ys2"
    by (auto simp: in_set_conv_decomp)
  have "count_list xs z = count_list (ys1 @ ys2) z" for z
    using Cons.prems[of z] by (auto simp: ys split: if_splits)
  from Cons.IH[OF this] show ?case
    by (simp add: ys)
qed

section \<open>The map adapters\<close>

lemma map_at_eq:
  "map_at c key = (if key \<in> fst ` set c then Inr (the (map_of c key)) else Inl OutOfRange)"
proof (cases "map_of c key")
  case None
  then have "key \<notin> fst ` set c" by (simp add: map_of_eq_None_iff)
  with None show ?thesis by (simp add: map_at_def)
next
  case (Some v)
  then have "key \<in> fst ` set c"
    using map_of_eq_None_iff[of c key] by auto
  with Some show ?thesis by (simp add: map_at_def)
qed

lemma stack_helper_map:
  "stack_helper (map_copy_key c) stk (r, cp) =
     (if set stk \<subseteq> fst ` set c
      then Inr (r @ map (\<lambda>k. (k, the (map_of c k))) stk, cp \<union> set stk)
      else Inl OutOfRange)"
proof (induction stk arbitrary: r cp)
  case Nil
  then show ?case by simp
next
  case (Cons k stk)
  show ?case
  proof (cases "k \<in> fst ` set c")
    case True
    then have "map_copy_key c k (r, cp) = Inr (r @ [(k, the (map_of c k))], insert k cp)"
      by (simp add: map_copy_key_def map_at_eq)
    with True show ?thesis
      by (simp add: Cons)
  next
    case False
    then have "map_copy_key c k (r, cp) = Inl OutOfRange"
      by (simp add: map_copy_key_def map_at_eq)
    with False show ?thesis
      by simp
  qed
qed

lemma map_sweep_eq:
  "distinct (map fst xs) \<Longrightarrow>
     map_sweep xs (r, cp) = (r @ filter (\<lambda>(k, v). k \<notin> cp) xs, cp \<union> fst ` set xs)"
proof (induction xs arbitrary: r cp)
  case Nil
  then show ?case by simp
next
  case (Cons e xs)
  obtain k v where e: "e = (k, v)" by (cases e)
  from Cons.prems e have k: "k \<notin> fst ` set xs" and d: "distinct (map fst xs)"
    by simp_all
  have "filter (\<lambda>(k', v). k' \<notin> insert k cp) xs = filter (\<lambda>(k', v). k' \<notin> cp) xs"
    using k by (intro filter_cong) force+
  then show ?case
    using Cons.IH[OF d] e by auto
qed

lemma sort_map_eq:
  assumes "topological_sort (sorter a) = Some (g', stk)" and "distinct (map fst (container a))"
  shows "sort_map a =
     Some (if set stk \<subseteq> fst ` set (container a)
           then Inr (a\<lparr>sorter := g'\<rparr>,
                  map (\<lambda>k. (k, the (map_of (container a) k))) stk @
                  filter (\<lambda>(k, v). k \<notin> set stk) (container a))
           else Inl OutOfRange)"
  using assms
  by (simp add: sort_map_def stack_helper_map map_sweep_eq)

lemma sort_unordered_map_eq: "sort_unordered_map a = sort_map a"
  by (simp add: sort_unordered_map_def sort_map_def)

lemma length_map_result:
  assumes "distinct stk" and "set stk \<subseteq> fst ` set c" and "distinct (map fst c)"
  shows "length (map f stk @ filter (\<lambda>(k, v). k \<notin> set stk) c) = length c"
proof -
  let ?in = "filter (\<lambda>(k, v). k \<in> set stk) c"
  have "map fst ?in = filter (\<lambda>k. k \<in> set stk) (map fst c)"
    by (induction c) auto
  with assms(3) have "distinct (map fst ?in)" by simp
  moreover have "set (map fst ?in) = set stk"
    using assms(2) by force
  ultimately have "length (map fst ?in) = length stk"
    using assms(1) by (metis distinct_card)
  then have "length ?in = length stk" by simp
  moreover have "length ?in + length (filter (\<lambda>(k, v). k \<notin> set stk) c) = length c"
    using sum_length_filter_compl[of "\<lambda>(k, v). k \<in> set stk" c]
    by (simp add: case_prod_unfold)
  ultimately show ?thesis by simp
qed

section \<open>The array adapter\<close>

lemma array_fill_prefix:
  "i + n \<le> length arr \<Longrightarrow>
     \<exists>arr'. array_fill n key (arr, i) = Inr (arr', i + n) \<and> length arr' = length arr \<and>
       take (i + n) arr' = take i arr @ replicate n key"
proof (induction n arbitrary: arr i)
  case 0
  then show ?case by simp
next
  case (Suc n)
  then have i: "i < length arr" and b: "Suc i + n \<le> length (arr[i := key])"
    by simp_all
  from Suc.IH[OF b] obtain arr' where
    f: "array_fill n key (arr[i := key], Suc i) = Inr (arr', Suc i + n)"
    and l: "length arr' = length arr"
    and t: "take (Suc i + n) arr' = take (Suc i) (arr[i := key]) @ replicate n key"
    by auto
  have "take (Suc i) (arr[i := key]) = take i arr @ [key]"
    using i by (simp add: take_Suc_conv_app_nth)
  with f l t i show ?case
    by (simp add: replicate_app_Cons_same)
qed

lemma array_copy_key_prefix:
  assumes "length r + count_list c key \<le> length arr" and "take (length r) arr = r"
  shows "\<exists>arr'. array_copy_key c key ((arr, length r), cp) =
           Inr ((arr', length (r @ replicate (count_list c key) key)), insert key cp) \<and>
         length arr' = length arr \<and>
         take (length (r @ replicate (count_list c key) key)) arr' =
           r @ replicate (count_list c key) key"
  using array_fill_prefix[OF assms(1), of key] assms(2)
  by (auto simp: array_copy_key_def)

lemma stack_helper_array:
  "length (r @ expand c stk) \<le> length arr \<Longrightarrow> take (length r) arr = r \<Longrightarrow>
     \<exists>arr'. stack_helper (array_copy_key c) stk ((arr, length r), cp) =
           Inr ((arr', length (r @ expand c stk)), cp \<union> set stk) \<and>
         length arr' = length arr \<and> take (length (r @ expand c stk)) arr' = r @ expand c stk"
proof (induction stk arbitrary: r arr cp)
  case Nil
  then show ?case by (simp add: expand_Nil)
next
  case (Cons k stk)
  let ?r = "r @ replicate (count_list c k) k"
  from Cons.prems have "length r + count_list c k \<le> length arr"
    by (simp add: expand_Cons)
  from array_copy_key_prefix[OF this Cons.prems(2), of cp] obtain arr1 where
    a: "array_copy_key c k ((arr, length r), cp) = Inr ((arr1, length ?r), insert k cp)"
    and l: "length arr1 = length arr" and t: "take (length ?r) arr1 = ?r"
    by blast
  have "length (?r @ expand c stk) \<le> length arr1"
    using Cons.prems(1) l by (simp add: expand_Cons)
  from Cons.IH[OF this t, of "insert k cp"] a l show ?case
    by (auto simp: expand_Cons)
qed

lemma array_sweep_prefix:
  "length (r @ expand c (unseen cp xs)) \<le> length arr \<Longrightarrow> take (length r) arr = r \<Longrightarrow>
     \<exists>arr'. array_sweep c xs ((arr, length r), cp) =
           Inr ((arr', length (r @ expand c (unseen cp xs))), cp \<union> set xs) \<and>
         length arr' = length arr \<and>
         take (length (r @ expand c (unseen cp xs))) arr' = r @ expand c (unseen cp xs)"
proof (induction xs arbitrary: r arr cp)
  case Nil
  then show ?case by (simp add: expand_Nil)
next
  case (Cons k xs)
  show ?case
  proof (cases "k \<in> cp")
    case True
    with Cons.IH[of r cp arr] Cons.prems show ?thesis
      by (auto simp: insert_absorb)
  next
    case False
    let ?r = "r @ replicate (count_list c k) k"
    from Cons.prems False have "length r + count_list c k \<le> length arr"
      by (simp add: expand_Cons)
    from array_fill_prefix[OF this, of k] Cons.prems(2) obtain arr1 where
      a: "array_fill (count_list c k) k (arr, length r) = Inr (arr1, length ?r)"
      and l: "length arr1 = length arr" and t: "take (length ?r) arr1 = ?r"
      by auto
    have "length (?r @ expand c (unseen (insert k cp) xs)) \<le> length arr1"
      using Cons.prems(1) l False by (simp add: expand_Cons)
    from Cons.IH[OF this t] a l False show ?thesis
      by (auto simp: expand_Cons)
  qed
qed

lemma length_vector_result:
  "distinct stk \<Longrightarrow>
     length (expand c stk @ expand c (firsts (filter (\<lambda>x. x \<notin> set stk) c))) = length c"
  by (rule count_list_length) (rule count_list_vector_result)

lemma sort_array_eq:
  assumes ts: "topological_sort (sorter a) = Some (g', stk)" and d: "distinct stk"
  shows "sort_array dflt a = sort_vector a"
proof -
  let ?c = "container a"
  let ?arr = "replicate (length ?c) dflt"
  let ?r1 = "expand ?c stk"
  let ?r2 = "?r1 @ expand ?c (unseen (set stk) ?c)"
  have len: "length ?r2 = length ?c"
    using length_vector_result[OF d, of ?c] by (simp add: unseen_firsts)
  have "length ([] @ ?r1) \<le> length ?arr" "take (length ([]::'a list)) ?arr = []"
    using len by simp_all
  from stack_helper_array[OF this, of "{}"] obtain arr1 where
    s1: "stack_helper (array_copy_key ?c) stk ((?arr, 0), {}) = Inr ((arr1, length ?r1), set stk)"
    and l1: "length arr1 = length ?c" and t1: "take (length ?r1) arr1 = ?r1"
    by auto
  have "length ?r2 \<le> length arr1"
    using len l1 by simp
  from array_sweep_prefix[OF this t1] obtain arr2 where
    s2: "array_sweep ?c ?c ((arr1, length ?r1), set stk) =
           Inr ((arr2, length ?r2), set stk \<union> set ?c)"
    and l2: "length arr2 = length arr1" and t2: "take (length ?r2) arr2 = ?r2"
    by blast
  from t2 len l1 l2 have "arr2 = ?r2" by simp
  with s1 s2 ts show ?thesis
    by (simp add: sort_array_def sort_vector_eq[OF ts] unseen_firsts)
qed

section \<open>A graph in which every vertex has an entry\<close>

lemma visit_closed:
  assumes "visit key st = Some st'" and "key \<in> keys_of (adj st)"
    and "vertices (adj st) \<subseteq> keys_of (adj st)"
  shows "adj st' = adj st"
proof (cases "key \<in> visited st")
  case True
  with assms(1) show ?thesis by (simp add: visit_def)
next
  case False
  with assms(1) have "traverse (Util key) st = Some st'"
    by (simp add: visit_def sort_util_def)
  from traverse_closed_adj[OF this] assms(2,3) show ?thesis by simp
qed

lemma topological_sort_loop_closed:
  "topological_sort_loop it st = Some st' \<Longrightarrow> set_option it \<subseteq> keys_of (adj st) \<Longrightarrow>
     vertices (adj st) \<subseteq> keys_of (adj st) \<Longrightarrow> adj st' = adj st"
proof (induction rule: topological_sort_loop_induct)
  case (finish st)
  then show ?case by simp
next
  case (step key st st1 st')
  from visit_closed[OF step.hyps(1)] step.prems have eq: "adj st1 = adj st" by simp
  have "set_option (map_next (adj st1) key) \<subseteq> keys_of (adj st1)"
    using map_next_SomeD[of "adj st1" key] by (cases "map_next (adj st1) key") auto
  with step.IH step.prems(2) eq show ?case by simp
qed

lemma map_begin_key: "set_option (map_begin g) \<subseteq> keys_of g"
  by (cases g) (auto simp: map_begin_def keys_of_def)

lemma topological_sort_closed:
  assumes "topological_sort g = Some (g', stk)" and "vertices g \<subseteq> keys_of g"
  shows "g' = g"
proof -
  from assms(1) obtain st' where
    "topological_sort_loop (map_begin g) \<lparr>adj = g, visited = {}, s = []\<rparr> = Some st'"
    and "g' = adj st'"
    by (auto simp: topological_sort_def)
  with topological_sort_loop_closed[OF this(1)] map_begin_key[of g] assms(2)
  show ?thesis by simp
qed

lemma topological_sort_closes:
  assumes "adj_wf g" and "topological_sort g = Some (g', stk)"
  shows "vertices g' \<subseteq> keys_of g'" and "vertices g' = vertices g"
proof -
  note r = topological_sort_result[OF assms]
  have "edges g' = edges g"
    using r(3) by (rule edges_successors)
  then have "vertices g' = keys_of g' \<union> snd ` edges g"
    using vertices_edges[OF r(5)] by simp
  moreover have "snd ` edges g \<subseteq> vertices g"
    using vertices_edges[OF assms(1)] by auto
  ultimately show "vertices g' \<subseteq> keys_of g'" and "vertices g' = vertices g"
    using r(4) by auto
qed

lemma topological_sort_again:
  assumes "adj_wf g" and "topological_sort g = Some (g1, s1)"
    and "topological_sort g1 = Some (g2, s2)"
  shows "g2 = g1"
  using topological_sort_closed[OF assms(3) topological_sort_closes(1)[OF assms(1,2)]] .

section \<open>What the adapters return\<close>

lemma sort_vector_result:
  assumes "adj_wf (sorter a)"
  shows "\<exists>g' stk. topological_sort (sorter a) = Some (g', stk) \<and> distinct stk \<and>
           set stk = vertices (sorter a) \<and>
           sort_vector a =
             Some (Inr (a\<lparr>sorter := g'\<rparr>,
               expand (container a) stk @
               expand (container a)
                 (firsts (filter (\<lambda>x. x \<notin> vertices (sorter a)) (container a))))) \<and>
           sort_array dflt a = sort_vector a"
proof -
  obtain g' stk where ts: "topological_sort (sorter a) = Some (g', stk)"
    using topological_sort_terminates by blast
  note r = topological_sort_result(1,2)[OF assms ts]
  from sort_vector_eq[OF ts] sort_array_eq[OF ts r(1)] ts r show ?thesis
    by simp
qed

lemma sort_vector_permutes:
  assumes "adj_wf (sorter a)"
  shows "\<exists>a' r. sort_vector a = Some (Inr (a', r)) \<and> sort_array dflt a = Some (Inr (a', r)) \<and>
           container a' = container a \<and> length r = length (container a) \<and>
           (\<forall>x. count_list r x = count_list (container a) x)"
proof -
  from sort_vector_result[OF assms, of dflt] obtain g' stk where d: "distinct stk"
    and v: "set stk = vertices (sorter a)"
    and sv: "sort_vector a =
      Some (Inr (a\<lparr>sorter := g'\<rparr>,
        expand (container a) stk @
        expand (container a) (firsts (filter (\<lambda>x. x \<notin> set stk) (container a)))))"
    and sa: "sort_array dflt a = sort_vector a"
    by auto
  show ?thesis
    using sv sa length_vector_result[OF d, of "container a"]
      count_list_vector_result[OF d, of "container a"]
    by simp
qed

lemma count_list_filter: "P x \<Longrightarrow> count_list (filter P c) x = count_list c x"
  by (induction c) auto

lemma count_list_distinct: "distinct xs \<Longrightarrow> x \<in> set xs \<Longrightarrow> count_list xs x = 1"
  by (induction xs) (auto simp: count_list_0_iff)

lemma firsts_distinct:
  assumes "distinct xs"
  shows "firsts xs = xs"
proof -
  have "remdups (rev xs) = rev xs"
    using assms by (simp only: remdups_id_iff_distinct distinct_rev)
  then show ?thesis
    by (simp only: firsts_def rev_rev_ident)
qed

lemma expand_distinct_keys:
  assumes "distinct (filter P c)"
  shows "expand c (firsts (filter P c)) = filter P c"
proof -
  have one: "count_list c x = 1" if "x \<in> set (filter P c)" for x
    using that count_list_filter[of P x c] count_list_distinct[OF assms that] by simp
  have same: "expand c ks = ks" if "\<And>x. x \<in> set ks \<Longrightarrow> count_list c x = 1" for ks
    using that by (induction ks) (simp_all add: expand_Nil expand_Cons)
  have "expand c (filter P c) = filter P c"
    by (rule same) (rule one)
  then show ?thesis
    by (simp only: firsts_distinct[OF assms])
qed

section \<open>The linearization\<close>

lemma acyclic_rank:
  fixes f :: "'a \<Rightarrow> nat"
  assumes "\<And>v w. (v, w) \<in> r \<Longrightarrow> f v < f w"
  shows "acyclic r"
proof -
  have "r \<subseteq> measure f" using assms by auto
  moreover have "acyclic (measure f)" by (rule wf_acyclic) simp
  ultimately show ?thesis by (rule acyclic_subset[rotated])
qed

text \<open>
  Claim C10. Whatever edges were declared (duplicates, cycles and self-edges included),
  the stack that \<^verbatim>\<open>topological_sort\<close> returns holds every vertex of the graph, that is
  every left- or right-hand side of a declared edge, exactly once, and nothing else.
\<close>

theorem stack_is_the_vertices:
  "\<exists>g' stk. topological_sort (build es) = Some (g', stk) \<and>
     distinct stk \<and> set stk = fst ` set es \<union> snd ` set es"
proof -
  obtain g' stk where ts: "topological_sort (build es) = Some (g', stk)"
    using topological_sort_terminates by blast
  from topological_sort_result(1,2)[OF adj_wf_build ts] ts show ?thesis
    by (simp add: vertices_build)
qed

text \<open>
  Claim C1. On an acyclic graph built by \<^verbatim>\<open>precede\<close>, every declared edge \<open>(v, w)\<close> is
  respected by the stack read in pop order: \<open>v\<close> is popped, and \<open>w\<close> is among the keys
  popped after it (each key is on the stack once).
\<close>

theorem topological_validity:
  assumes "acyclic (set es)" and "(v, w) \<in> set es"
  shows "\<exists>g' stk pre post. topological_sort (build es) = Some (g', stk) \<and>
           distinct stk \<and> stk = pre @ v # post \<and> w \<in> set post"
proof -
  obtain g' stk where ts: "topological_sort (build es) = Some (g', stk)"
    using topological_sort_terminates by blast
  note r = topological_sort_result[OF adj_wf_build ts]
  have "ordered (build es) stk"
    using r(6) assms(1) by (simp add: edges_build)
  moreover have "v \<in> set stk"
    using r(2) assms(2) by (force simp: vertices_build)
  then obtain pre post where split: "stk = pre @ v # post"
    by (auto simp: in_set_conv_decomp)
  moreover have "w \<in> set (successors (build es) v)"
    using assms(2) edges_build[of es] by (auto simp: edges_def)
  ultimately have "w \<in> set post"
    unfolding ordered_def by blast
  with ts r(1) split show ?thesis by blast
qed

theorem topological_validity_witness:
  "acyclic (set [(1::nat, 2), (2, 3)]) \<and> (1, 2) \<in> set [(1::nat, 2), (2, 3)] \<and>
   (\<exists>g' stk pre post. topological_sort (build [(1::nat, 2), (2, 3)]) = Some (g', stk) \<and>
      distinct stk \<and> stk = pre @ 1 # post \<and> 2 \<in> set post)"
proof -
  have a: "acyclic (set [(1::nat, 2), (2, 3)])"
    by (rule acyclic_rank[where f = id]) auto
  have e: "(1, 2) \<in> set [(1::nat, 2), (2, 3)]" by simp
  from topological_validity[OF a e] a e show ?thesis by blast
qed

section \<open>Termination\<close>

text \<open>
  Claim C6. \<^verbatim>\<open>topological_sort\<close> returns on every graph built by calls to
  \<^verbatim>\<open>precede\<close>, whatever the edges: cycles and self-edges included (the second conjunct
  adds a self-edge on top of any graph). \<^verbatim>\<open>precede\<close> is a total function on graphs, with
  no error value.
\<close>

theorem topological_sort_returns:
  "(\<exists>g' stk. topological_sort (build es) = Some (g', stk)) \<and>
   (\<exists>g' stk. topological_sort (precede v v (build es)) = Some (g', stk))"
  using topological_sort_terminates[of "build es"]
    topological_sort_terminates[of "precede v v (build es)"]
  by blast

section \<open>The scenarios of the demonstration program\<close>

text \<open>
  Claim C7. \<^verbatim>\<open>BasicStackExample\<close>: with the edges F-C, F-A, E-A, E-B, C-D, D-B declared
  in this order, popping the stack that \<^verbatim>\<open>topological_sort\<close> returns gives
  F, E, A, C, D, B.
\<close>

theorem scenario_a_stack:
  "map_option snd
     (topological_sort
        (build [(''F'', ''C''), (''F'', ''A''), (''E'', ''A''), (''E'', ''B''), (''C'', ''D''),
                (''D'', ''B'')])) =
   Some [''F'', ''E'', ''A'', ''C'', ''D'', ''B'']"
  by code_simp

text \<open>
  Claim C8. \<^verbatim>\<open>STLVectorExample\<close>, first call of \<^verbatim>\<open>sort\<close>: the vector holds A three
  times, B, C, D, E twice each and F three times, the graph has the six edges and Z-F,
  and Z is not in the vector. The result is the 14 elements
  F,F,F,E,E,A,A,A,C,C,D,D,B,B.
\<close>

theorem scenario_c_vector:
  "map_option (map_sum id snd)
     (sort_vector
        \<lparr>container =
           [''A'', ''A'', ''A'', ''B'', ''B'', ''C'', ''C'', ''D'', ''D'', ''E'', ''E'',
            ''F'', ''F'', ''F''],
         sorter =
           build [(''F'', ''C''), (''F'', ''A''), (''E'', ''A''), (''E'', ''B''), (''C'', ''D''),
                  (''D'', ''B''), (''Z'', ''F'')]\<rparr>) =
   Some (Inr [''F'', ''F'', ''F'', ''E'', ''E'', ''A'', ''A'', ''A'', ''C'', ''C'', ''D'', ''D'',
              ''B'', ''B''])"
  by code_simp

section \<open>What a call changes\<close>

lemma sort_vector_SomeD:
  assumes "sort_vector a = Some (Inr (a', r))"
  shows "\<exists>g' stk. topological_sort (sorter a) = Some (g', stk) \<and> a' = a\<lparr>sorter := g'\<rparr> \<and>
           r = expand (container a) stk @
               expand (container a) (firsts (filter (\<lambda>x. x \<notin> set stk) (container a)))"
proof -
  obtain g' stk where ts: "topological_sort (sorter a) = Some (g', stk)"
    using topological_sort_terminates by blast
  from sort_vector_eq[OF ts] assms ts show ?thesis by simp
qed

lemma sort_map_SomeD:
  assumes "sort_map a = Some (Inr (a', r))"
  shows "\<exists>g' stk. topological_sort (sorter a) = Some (g', stk) \<and> a' = a\<lparr>sorter := g'\<rparr>"
  using assms
  by (auto simp: sort_map_def split: option.splits sum.splits)

text \<open>
  Claim C4, as the code has it. A call leaves the container alone, and leaves the
  successors of every key as they were; to the map \<^verbatim>\<open>adj\<close> it adds an entry with no
  successors for every vertex that had none, so that afterwards the keys of the map are
  the vertices of the graph. When every vertex had an entry, the map is left as it was.
  The adapters hand back their container with that map.
\<close>

theorem sort_frame:
  assumes "adj_wf g"
  shows "\<exists>g' stk. topological_sort g = Some (g', stk) \<and>
           successors g' = successors g \<and> keys_of g' = vertices g \<and> adj_wf g' \<and>
           (vertices g \<subseteq> keys_of g \<longrightarrow> g' = g) \<and>
           (\<exists>r. sort_vector \<lparr>container = c, sorter = g\<rparr> =
                  Some (Inr (\<lparr>container = c, sorter = g'\<rparr>, r))) \<and>
           (\<exists>r. sort_array dflt \<lparr>container = c, sorter = g\<rparr> =
                  Some (Inr (\<lparr>container = c, sorter = g'\<rparr>, r))) \<and>
           (\<forall>a' r. sort_map \<lparr>container = m, sorter = g\<rparr> = Some (Inr (a', r)) \<longrightarrow>
                  a' = \<lparr>container = m, sorter = g'\<rparr>) \<and>
           (\<forall>a' r. sort_unordered_map \<lparr>container = m, sorter = g\<rparr> = Some (Inr (a', r)) \<longrightarrow>
                  a' = \<lparr>container = m, sorter = g'\<rparr>)"
proof -
  obtain g' stk where ts: "topological_sort g = Some (g', stk)"
    using topological_sort_terminates by blast
  note r = topological_sort_result[OF assms ts]
  let ?av = "\<lparr>container = c, sorter = g\<rparr>"
  have ts': "topological_sort (sorter ?av) = Some (g', stk)"
    using ts by simp
  have v: "\<exists>r. sort_vector ?av = Some (Inr (\<lparr>container = c, sorter = g'\<rparr>, r))"
    using sort_vector_eq[OF ts'] by simp
  then have a: "\<exists>r. sort_array dflt ?av = Some (Inr (\<lparr>container = c, sorter = g'\<rparr>, r))"
    using sort_array_eq[OF ts' r(1), of dflt] by simp
  have m: "a' = \<lparr>container = m, sorter = g'\<rparr>"
    if "sort_map \<lparr>container = m, sorter = g\<rparr> = Some (Inr (a', r))" for a' r
    using sort_map_SomeD[OF that] ts by auto
  from ts r(3,4,5) topological_sort_closed[OF ts] v a m show ?thesis
    by (auto simp: sort_unordered_map_eq)
qed

theorem sort_frame_witness:
  "adj_wf (build [(''D'', ''B'')]) \<and>
   (\<exists>g' stk. topological_sort (build [(''D'', ''B'')]) = Some (g', stk) \<and>
      successors g' = successors (build [(''D'', ''B'')]) \<and>
      keys_of g' = vertices (build [(''D'', ''B'')]) \<and>
      (\<exists>r. sort_vector \<lparr>container = [''B'', ''D''], sorter = build [(''D'', ''B'')]\<rparr> =
             Some (Inr (\<lparr>container = [''B'', ''D''], sorter = g'\<rparr>, r))))"
proof -
  have h: "adj_wf (build [(''D'', ''B'')])"
    by (simp add: build_def precede_def adj_index_def map_assign_def adj_wf_def)
  from sort_frame[OF h, where c = "[''B'', ''D'']" and dflt = "''''"
      and m = "[]::(string \<times> int) list"] h
  show ?thesis by blast
qed

text \<open>
  The claim as it is written fails: the call on the graph with the one edge D-B leaves
  an entry for B behind.
\<close>

theorem sort_frame_counterexample:
  "\<exists>g' stk. topological_sort (build [(''D'', ''B'')]) = Some (g', stk) \<and>
     g' \<noteq> build [(''D'', ''B'')]"
proof -
  have "topological_sort (build [(''D'', ''B'')]) =
      Some ([(''B'', []), (''D'', [''B''])], [''D'', ''B''])"
    by code_simp
  moreover have "[(''B'', []), (''D'', [''B''])] \<noteq> build [(''D'', ''B'')]"
    by (simp add: build_def precede_def adj_index_def map_assign_def)
  ultimately show ?thesis by blast
qed

section \<open>Calling twice\<close>

text \<open>
  Claim C5, as the code has it. When every vertex of the graph has an entry in \<^verbatim>\<open>adj\<close>,
  the call changes nothing and a second call returns what the first returned. After any
  call that is the case: the second call leaves the map as it found it, and the third
  returns what the second returned. The first two calls return the same keys in any
  case, possibly in another order. The same holds for \<^verbatim>\<open>sort\<close> of the vector adapter.
\<close>

theorem repeated_sort:
  assumes "adj_wf g" and "topological_sort g = Some (g1, s1)"
    and "topological_sort g1 = Some (g2, s2)"
  shows "(vertices g \<subseteq> keys_of g \<longrightarrow> g1 = g \<and> s2 = s1) \<and>
         g2 = g1 \<and> topological_sort g2 = Some (g2, s2) \<and> set s2 = set s1 \<and>
         (\<forall>a1 r1 a2 r2.
            sort_vector \<lparr>container = c, sorter = g\<rparr> = Some (Inr (a1, r1)) \<longrightarrow>
            sort_vector a1 = Some (Inr (a2, r2)) \<longrightarrow>
            a2 = a1 \<and> sort_vector a2 = Some (Inr (a2, r2)) \<and>
            (vertices g \<subseteq> keys_of g \<longrightarrow> a1 = \<lparr>container = c, sorter = g\<rparr> \<and> r2 = r1))"
proof -
  have g2: "g2 = g1"
    using topological_sort_again[OF assms] .
  have closed: "g1 = g \<and> s2 = s1" if "vertices g \<subseteq> keys_of g"
  proof -
    from topological_sort_closed[OF assms(2) that] have "g1 = g" .
    with assms(2,3) show ?thesis by simp
  qed
  have vec: "a2 = a1 \<and> sort_vector a2 = Some (Inr (a2, r2)) \<and>
      (vertices g \<subseteq> keys_of g \<longrightarrow> a1 = \<lparr>container = c, sorter = g\<rparr> \<and> r2 = r1)"
    if v1: "sort_vector \<lparr>container = c, sorter = g\<rparr> = Some (Inr (a1, r1))"
      and v2: "sort_vector a1 = Some (Inr (a2, r2))" for a1 r1 a2 r2
  proof -
    from sort_vector_SomeD[OF v1] assms(2)
    have a1: "a1 = \<lparr>container = c, sorter = g1\<rparr>"
      and r1: "r1 = expand c s1 @ expand c (firsts (filter (\<lambda>x. x \<notin> set s1) c))"
      by auto
    from sort_vector_SomeD[OF v2] a1 assms(3) g2
    have a2: "a2 = a1"
      and r2: "r2 = expand c s2 @ expand c (firsts (filter (\<lambda>x. x \<notin> set s2) c))"
      by auto
    from a1 a2 r1 r2 v2 closed show ?thesis by auto
  qed
  have "set s2 = set s1"
    using topological_sort_result(2)[OF assms(1,2)]
      topological_sort_result(2)[OF topological_sort_result(5)[OF assms(1,2)] assms(3)]
      topological_sort_closes(2)[OF assms(1,2)]
    by simp
  with g2 closed assms(3) vec show ?thesis by blast
qed

theorem repeated_sort_witness:
  "adj_wf (build [(2::nat, 5), (3, 1)]) \<and>
   topological_sort (build [(2::nat, 5), (3, 1)]) =
     Some ([(1, []), (2, [5]), (3, [1]), (5, [])], [3, 1, 2, 5]) \<and>
   topological_sort [(1::nat, []), (2, [5]), (3, [1]), (5, [])] =
     Some ([(1, []), (2, [5]), (3, [1]), (5, [])], [3, 2, 5, 1]) \<and>
   (\<exists>g2. topological_sort g2 = Some (g2, [3::nat, 2, 5, 1]))"
proof -
  have h1: "adj_wf (build [(2::nat, 5), (3, 1)])"
    by (simp add: build_def precede_def adj_index_def map_assign_def adj_wf_def)
  have h2: "topological_sort (build [(2::nat, 5), (3, 1)]) =
      Some ([(1, []), (2, [5]), (3, [1]), (5, [])], [3, 1, 2, 5])"
    by code_simp
  have h3: "topological_sort [(1::nat, []), (2, [5]), (3, [1]), (5, [])] =
      Some ([(1, []), (2, [5]), (3, [1]), (5, [])], [3, 2, 5, 1])"
    by code_simp
  from repeated_sort[OF h1 h2 h3, where c = "[]"] h1 h2 h3 show ?thesis by blast
qed

text \<open>
  The claim as it is written fails on the graph of \<^verbatim>\<open>BasicStackExample\<close>: the first
  call leaves entries for A and B behind, the loop of the second call starts from them,
  and A moves from the third place to the last.
\<close>

theorem repeated_sort_counterexample:
  "\<exists>g1 s1 g2 s2.
     topological_sort
       (build [(''F'', ''C''), (''F'', ''A''), (''E'', ''A''), (''E'', ''B''), (''C'', ''D''),
               (''D'', ''B'')]) = Some (g1, s1) \<and>
     topological_sort g1 = Some (g2, s2) \<and> s1 \<noteq> s2"
proof -
  let ?g1 = "[(''A'', []), (''B'', []), (''C'', [''D'']), (''D'', [''B'']),
              (''E'', [''A'', ''B'']), (''F'', [''C'', ''A''])]"
  have "topological_sort
       (build [(''F'', ''C''), (''F'', ''A''), (''E'', ''A''), (''E'', ''B''), (''C'', ''D''),
               (''D'', ''B'')]) = Some (?g1, [''F'', ''E'', ''A'', ''C'', ''D'', ''B''])"
    by code_simp
  moreover have "topological_sort ?g1 = Some (?g1, [''F'', ''E'', ''C'', ''D'', ''B'', ''A''])"
    by code_simp
  moreover have "[''F'', ''E'', ''A'', ''C'', ''D'', ''B''] \<noteq>
      [''F'', ''E'', ''C'', ''D'', ''B'', ''A'']"
    by simp
  ultimately show ?thesis by blast
qed

section \<open>The result of \<^verbatim>\<open>sort\<close>\<close>

text \<open>
  Where the cardinality of the result is that of the container: the vector and array
  adapters return a permutation of the container on every input, and the map adapters
  return as many pairs as the map holds whenever they return.
\<close>

lemma sort_preserves_length:
  assumes "adj_wf g" and "distinct (map fst m)"
  shows "(\<exists>a' r. sort_vector \<lparr>container = c, sorter = g\<rparr> = Some (Inr (a', r)) \<and>
            sort_array dflt \<lparr>container = c, sorter = g\<rparr> = Some (Inr (a', r)) \<and>
            length r = length c \<and> (\<forall>x. count_list r x = count_list c x)) \<and>
         (\<forall>a' r. sort_map \<lparr>container = m, sorter = g\<rparr> = Some (Inr (a', r)) \<or>
                 sort_unordered_map \<lparr>container = m, sorter = g\<rparr> = Some (Inr (a', r)) \<longrightarrow>
                 length r = length m)"
proof -
  let ?am = "\<lparr>container = m, sorter = g\<rparr>"
  obtain g' stk where ts: "topological_sort g = Some (g', stk)"
    using topological_sort_terminates by blast
  note d = topological_sort_result(1,2)[OF assms(1) ts]
  have tm: "topological_sort (sorter ?am) = Some (g', stk)"
    using ts by simp
  have "length r = length m" if "sort_map ?am = Some (Inr (a', r))" for a' r
  proof -
    from sort_map_eq[OF tm] assms(2) that have sub: "set stk \<subseteq> fst ` set m"
      and r: "r = map (\<lambda>k. (k, the (map_of m k))) stk @ filter (\<lambda>(k, v). k \<notin> set stk) m"
      by (auto split: if_splits)
    from length_map_result[OF d(1) sub assms(2)] r show ?thesis by simp
  qed
  with sort_vector_permutes[of "\<lparr>container = c, sorter = g\<rparr>" dflt] assms(1)
  show ?thesis
    by (auto simp: sort_unordered_map_eq)
qed

text \<open>
  Claim C2. The vector and array adapters drop a key of the graph that the container
  does not hold. \<^verbatim>\<open>topological_sort_map::sort\<close> and
  \<^verbatim>\<open>topological_sort_unordered_map::sort\<close> do not: they look the key up with
  \<^verbatim>\<open>container::at\<close>, which throws. Here the map holds F alone and the graph has the
  edge Z-F.
\<close>

theorem map_sort_absent_key:
  "sort_map \<lparr>container = [(''F'', 5::int)], sorter = build [(''Z'', ''F'')]\<rparr> =
     Some (Inl OutOfRange) \<and>
   sort_unordered_map \<lparr>container = [(''F'', 5::int)], sorter = build [(''Z'', ''F'')]\<rparr> =
     Some (Inl OutOfRange)"
  by code_simp

text \<open>
  Claim C3. On a map that holds A and B and a graph with the edge A-C, \<^verbatim>\<open>sort\<close> of the
  map adapters returns no sequence at all, so none of the size of the container.
\<close>

theorem map_sort_no_result:
  "\<not> (\<exists>a' r. (sort_map \<lparr>container = [(''A'', 0::int), (''B'', 1)],
                         sorter = build [(''A'', ''C'')]\<rparr> = Some (Inr (a', r)) \<or>
               sort_unordered_map \<lparr>container = [(''A'', 0::int), (''B'', 1)],
                         sorter = build [(''A'', ''C'')]\<rparr> = Some (Inr (a', r))) \<and>
              length r = length [(''A'', 0::int), (''B'', 1)])"
proof -
  have "sort_map \<lparr>container = [(''A'', 0::int), (''B'', 1)], sorter = build [(''A'', ''C'')]\<rparr> =
      Some (Inl OutOfRange)"
    by code_simp
  then show ?thesis
    by (simp add: sort_unordered_map_eq)
qed

text \<open>
  Claim C9, as the code has it. The result of the vector and array adapters is the keys of
  the stack, each in as many copies as the container holds, followed by the keys of the
  container that are no vertex of the graph: these in the order of their first occurrence
  in the container, each in as many copies as the container holds. When no such key
  occurs twice in the container, that second part is the elements of the container that
  are no vertex, in the order of the container. The result of the map adapters, when
  they return, is the pairs of the keys of the stack followed by the pairs of the
  container whose key is no vertex, in the order of the container.
\<close>

theorem unconstrained_elements_last:
  assumes "adj_wf g" and "distinct (map fst m)"
  shows "\<exists>g' stk. topological_sort g = Some (g', stk) \<and> distinct stk \<and> set stk = vertices g \<and>
     sort_vector \<lparr>container = c, sorter = g\<rparr> =
       Some (Inr (\<lparr>container = c, sorter = g'\<rparr>,
         concat (map (\<lambda>k. replicate (count_list c k) k) stk) @
         concat (map (\<lambda>k. replicate (count_list c k) k)
           (rev (remdups (rev (filter (\<lambda>k. k \<notin> vertices g) c))))))) \<and>
     sort_array dflt \<lparr>container = c, sorter = g\<rparr> = sort_vector \<lparr>container = c, sorter = g\<rparr> \<and>
     (distinct (filter (\<lambda>k. k \<notin> vertices g) c) \<longrightarrow>
        concat (map (\<lambda>k. replicate (count_list c k) k)
          (rev (remdups (rev (filter (\<lambda>k. k \<notin> vertices g) c))))) =
        filter (\<lambda>k. k \<notin> vertices g) c) \<and>
     (\<forall>a' r. sort_map \<lparr>container = m, sorter = g\<rparr> = Some (Inr (a', r)) \<or>
             sort_unordered_map \<lparr>container = m, sorter = g\<rparr> = Some (Inr (a', r)) \<longrightarrow>
        r = map (\<lambda>k. (k, the (map_of m k))) stk @ filter (\<lambda>(k, v). k \<notin> vertices g) m)"
proof -
  let ?av = "\<lparr>container = c, sorter = g\<rparr>" and ?am = "\<lparr>container = m, sorter = g\<rparr>"
  obtain g' stk where ts: "topological_sort g = Some (g', stk)"
    using topological_sort_terminates by blast
  note r = topological_sort_result(1,2)[OF assms(1) ts]
  have tv: "topological_sort (sorter ?av) = Some (g', stk)"
    and tm: "topological_sort (sorter ?am) = Some (g', stk)"
    using ts by simp_all
  have v: "sort_vector ?av =
      Some (Inr (\<lparr>container = c, sorter = g'\<rparr>,
        concat (map (\<lambda>k. replicate (count_list c k) k) stk) @
        concat (map (\<lambda>k. replicate (count_list c k) k)
          (rev (remdups (rev (filter (\<lambda>k. k \<notin> vertices g) c)))))))"
    using sort_vector_eq[OF tv] r(2) by (simp add: expand_def firsts_def)
  have a: "sort_array dflt ?av = sort_vector ?av"
    using sort_array_eq[OF tv r(1)] .
  have e: "concat (map (\<lambda>k. replicate (count_list c k) k)
          (rev (remdups (rev (filter (\<lambda>k. k \<notin> vertices g) c))))) =
        filter (\<lambda>k. k \<notin> vertices g) c"
    if "distinct (filter (\<lambda>k. k \<notin> vertices g) c)"
    using expand_distinct_keys[OF that] by (simp add: expand_def firsts_def)
  have mp: "r = map (\<lambda>k. (k, the (map_of m k))) stk @ filter (\<lambda>(k, v). k \<notin> vertices g) m"
    if "sort_map ?am = Some (Inr (a', r))" for a' r
    using sort_map_eq[OF tm] assms(2) that r(2) by (auto split: if_splits)
  from ts r v a e mp show ?thesis
    by (auto simp: sort_unordered_map_eq)
qed

theorem unconstrained_elements_last_witness:
  "adj_wf (build [(''A'', ''B'')]) \<and> distinct (map fst [(''X'', 1::int), (''A'', 2)]) \<and>
   (\<exists>g' stk. topological_sort (build [(''A'', ''B'')]) = Some (g', stk) \<and>
      sort_vector \<lparr>container = [''X'', ''Y'', ''X''], sorter = build [(''A'', ''B'')]\<rparr> =
        Some (Inr (\<lparr>container = [''X'', ''Y'', ''X''], sorter = g'\<rparr>,
          concat (map (\<lambda>k. replicate (count_list [''X'', ''Y'', ''X''] k) k) stk) @
          concat (map (\<lambda>k. replicate (count_list [''X'', ''Y'', ''X''] k) k)
            (rev (remdups (rev (filter (\<lambda>k. k \<notin> vertices (build [(''A'', ''B'')]))
               [''X'', ''Y'', ''X'']))))))))"
proof -
  have h1: "adj_wf (build [(''A'', ''B'')])"
    by (simp add: build_def precede_def adj_index_def map_assign_def adj_wf_def)
  have h2: "distinct (map fst [(''X'', 1::int), (''A'', 2)])"
    by simp
  from unconstrained_elements_last[OF h1 h2, where c = "[''X'', ''Y'', ''X'']" and dflt = "''''"]
    h1 h2
  show ?thesis by blast
qed

text \<open>
  The claim as it is written fails on a vector that holds a key that is no vertex twice,
  with another such key in between: the vector X, Y, X comes back as X, X, Y.
\<close>

theorem unconstrained_elements_last_counterexample:
  "\<exists>a' r. sort_vector \<lparr>container = [''X'', ''Y'', ''X''], sorter = build [(''A'', ''B'')]\<rparr> =
            Some (Inr (a', r)) \<and>
     filter (\<lambda>k. k \<notin> vertices (build [(''A'', ''B'')])) r \<noteq>
     filter (\<lambda>k. k \<notin> vertices (build [(''A'', ''B'')])) [''X'', ''Y'', ''X'']"
proof -
  have "sort_vector \<lparr>container = [''X'', ''Y'', ''X''], sorter = build [(''A'', ''B'')]\<rparr> =
      Some (Inr (\<lparr>container = [''X'', ''Y'', ''X''],
                  sorter = [(''A'', [''B'']), (''B'', [])]\<rparr>, [''X'', ''X'', ''Y'']))"
    by code_simp
  moreover have "filter (\<lambda>k. k \<notin> vertices (build [(''A'', ''B'')])) [''X'', ''X'', ''Y''] \<noteq>
      filter (\<lambda>k. k \<notin> vertices (build [(''A'', ''B'')])) [''X'', ''Y'', ''X'']"
    by (simp add: vertices_build)
  ultimately show ?thesis by blast
qed

end
